theory Spec2Isabelle
  imports Main "HOL-Library.Word"
begin

unbundle bit_operations_syntax

section \<open>The N-Queens solver: data model\<close>

text \<open>
  The repository holds three near-duplicate solvers: \<open>solver.cpp\<close> and the two files
  \<open>part_000\<close> and \<open>part_001\<close>.  They share the bitmask backtracking search and differ in
  three places, which the model takes from a \<open>variant\<close>:
  \<^item> whether a stop flag exists and whether it is ever set (\<open>solver.cpp\<close> sets it on large
    boards, \<open>part_000\<close> declares and tests it but never sets it, \<open>part_001\<close> has none);
  \<^item> which board sizes \<open>main\<close> reports as unsolvable;
  \<^item> for which board sizes \<open>solveWithSymmetry\<close> uses the plain search only.

  The masks are \<open>uint64_t\<close>, here 64-bit words.  The board size and the columns are
  \<open>int\<close> and the count is \<open>long long\<close>; the model takes them as integers.  No
  computation on a board size or a column leaves the range of \<open>int\<close> on a board that fits
  the mask, and the count is that of a run that counts fewer than \<open>2^63\<close> solutions.  The
  formatting of a record into bytes and the buffered writing are left out: the model
  keeps the records as they are handed to the writer.
\<close>

datatype variant = Solver_cpp | Part_000 | Part_001

type_synonym mask = "64 word"

definition FIND_ALL_LIMIT :: int where
  "FIND_ALL_LIMIT = 21"

definition MAX_SOLUTIONS_LARGE_N :: int where
  "MAX_SOLUTIONS_LARGE_N = 1000"

text \<open>
  The global state of one process.  \<open>path\<close> is the vector that \<open>solveWithSymmetry\<close> creates
  and hands by reference to every recursive call; \<open>sink\<close> is the sequence of records
  handed to the buffered writer, in the order written.  Two fields are not variables of
  the program: \<open>fault\<close> is raised where the C++ would read or pop a vector out of range
  (undefined behaviour), and \<open>observed\<close> logs the occupied-columns mask and the placement
  of a call of the recursive search, at its entry and after each \<open>pop_back\<close> of its loop.
\<close>

record search =
  solutionCount :: int
  stopSearch :: bool
  path :: "int list"
  sink :: "int list list"
  fault :: bool
  observed :: "(mask \<times> int list) list"

definition initial :: search where
  "initial = \<lparr>solutionCount = 0, stopSearch = False, path = [], sink = [],
              fault = False, observed = []\<rparr>"

text \<open>\<open>__builtin_ctzll\<close>: the number of zero bits below the lowest set bit.\<close>

definition ctz :: "mask \<Rightarrow> nat" where
  "ctz w = length (takeWhile (\<lambda>i. \<not> bit w i) [0..<64])"

text \<open>The number of set bits of a mask.\<close>

definition popcount :: "mask \<Rightarrow> nat" where
  "popcount w = length (filter (bit w) [0..<64])"

definition push_back :: "int \<Rightarrow> search \<Rightarrow> search" where
  "push_back x s = s\<lparr>path := path s @ [x]\<rparr>"

definition pop_back :: "search \<Rightarrow> search" where
  "pop_back s = (if path s = [] then s\<lparr>fault := True\<rparr> else s\<lparr>path := butlast (path s)\<rparr>)"

definition observe :: "mask \<Rightarrow> search \<Rightarrow> search" where
  "observe cols s = s\<lparr>observed := observed s @ [(cols, path s)]\<rparr>"

definition increment :: "search \<Rightarrow> search" where
  "increment s = s\<lparr>solutionCount := solutionCount s + 1\<rparr>"

text \<open>
  \<open>printSolution\<close> writes \<open>path[0]\<close> to \<open>path[N-1]\<close> as one record;
  \<open>printMirrorSolution\<close> writes \<open>(N + 1) - path[i]\<close> instead (in \<open>part_001\<close> the mirrored
  vector is built first and printed by \<open>printSolution\<close>, with the same record).
\<close>

definition printSolution :: "int \<Rightarrow> search \<Rightarrow> search" where
  "printSolution N s =
     (if int (length (path s)) < N then s\<lparr>fault := True\<rparr>
      else s\<lparr>sink := sink s @ [take (nat N) (path s)]\<rparr>)"

definition printMirrorSolution :: "int \<Rightarrow> search \<Rightarrow> search" where
  "printMirrorSolution N s =
     (if int (length (path s)) < N then s\<lparr>fault := True\<rparr>
      else s\<lparr>sink := sink s @ [map (\<lambda>x. (N + 1) - x) (take (nat N) (path s))]\<rparr>)"

definition checksStop :: "variant \<Rightarrow> bool" where
  "checksStop v = (v \<noteq> Part_001)"

definition capReached :: "variant \<Rightarrow> int \<Rightarrow> search \<Rightarrow> search" where
  "capReached v N s =
     (if v = Solver_cpp \<and> N \<ge> FIND_ALL_LIMIT \<and> solutionCount s \<ge> MAX_SOLUTIONS_LARGE_N
      then s\<lparr>stopSearch := True\<rparr> else s)"

section \<open>The backtracking search\<close>

text \<open>
  \<open>solve\<close> (\<open>backtrack\<close> in \<open>part_000\<close>) with its \<open>while\<close> loop over the candidate
  columns \<open>possible\<close>.  The state \<open>s\<close> stands for the global variables and the vector
  \<open>path\<close>, \<open>N\<close> and \<open>LIMIT\<close> for the two globals that the search only reads.
\<close>

function solve :: "variant \<Rightarrow> int \<Rightarrow> mask \<Rightarrow> mask \<Rightarrow> mask \<Rightarrow> mask \<Rightarrow> search \<Rightarrow> search"
  and solve_while :: "variant \<Rightarrow> int \<Rightarrow> mask \<Rightarrow> mask \<Rightarrow> mask \<Rightarrow> mask \<Rightarrow> mask \<Rightarrow> search \<Rightarrow> search"
where
  "solve v N LIMIT cols diagLeft diagRight s =
     (if checksStop v \<and> stopSearch s then observe cols s
      else if cols = LIMIT then capReached v N (printSolution N (increment (observe cols s)))
      else solve_while v N LIMIT (NOT (cols OR diagLeft OR diagRight) AND LIMIT)
             cols diagLeft diagRight (observe cols s))"
| "solve_while v N LIMIT possible cols diagLeft diagRight s =
     (if possible = 0 then s
      else if checksStop v \<and> stopSearch s then s
      else let b = possible AND - possible
           in solve_while v N LIMIT (possible - b) cols diagLeft diagRight
                (observe cols
                  (pop_back (solve v N LIMIT (cols OR b) (push_bit 1 (diagLeft OR b))
                               (drop_bit 1 (diagRight OR b))
                               (push_back (int (ctz b) + 1) s)))))"
  by pat_completeness auto

text \<open>
  The lambda \<open>symmetricSolve\<close> of \<open>solveWithSymmetry\<close> (\<open>symmetricDFS\<close>,
  \<open>recursiveSolver\<close> in the other files): the same search without the stop flag; at a
  full board it counts and writes the placement, then counts and writes its mirror.
\<close>

function symmetricSolve :: "int \<Rightarrow> mask \<Rightarrow> mask \<Rightarrow> mask \<Rightarrow> mask \<Rightarrow> search \<Rightarrow> search"
  and symmetricSolve_while :: "int \<Rightarrow> mask \<Rightarrow> mask \<Rightarrow> mask \<Rightarrow> mask \<Rightarrow> mask \<Rightarrow> search \<Rightarrow> search"
where
  "symmetricSolve N LIMIT c l r s =
     (if c = LIMIT
      then printMirrorSolution N (increment (printSolution N (increment (observe c s))))
      else symmetricSolve_while N LIMIT (NOT (c OR l OR r) AND LIMIT) c l r (observe c s))"
| "symmetricSolve_while N LIMIT p c l r s =
     (if p = 0 then s
      else let b = p AND - p
           in symmetricSolve_while N LIMIT (p - b) c l r
                (observe c
                  (pop_back (symmetricSolve N LIMIT (c OR b) (push_bit 1 (l OR b))
                               (drop_bit 1 (r OR b))
                               (push_back (int (ctz b) + 1) s)))))"
  by pat_completeness auto

section \<open>The entry point of the search and the program\<close>

text \<open>C++ integer division truncates towards zero.\<close>

definition cdiv :: "int \<Rightarrow> int \<Rightarrow> int" where
  "cdiv a b = sgn a * sgn b * (\<bar>a\<bar> div \<bar>b\<bar>)"

definition cmod :: "int \<Rightarrow> int \<Rightarrow> int" where
  "cmod a b = a - b * cdiv a b"

definition plainOnly :: "variant \<Rightarrow> int \<Rightarrow> bool" where
  "plainOnly v N = (if v = Part_001 then N \<le> 1 \<or> N \<ge> 21 else N \<ge> FIND_ALL_LIMIT)"

text \<open>One turn of the loop over the first-row columns \<open>0 .. N/2 - 1\<close>.\<close>

definition firstRow :: "int \<Rightarrow> mask \<Rightarrow> nat \<Rightarrow> search \<Rightarrow> search" where
  "firstRow N LIMIT col s =
     (let b = push_bit col 1
      in pop_back (symmetricSolve N LIMIT b (push_bit 1 b) (drop_bit 1 b)
                     (push_back (int col + 1) s)))"

definition solveWithSymmetry :: "variant \<Rightarrow> int \<Rightarrow> mask \<Rightarrow> search \<Rightarrow> search" where
  "solveWithSymmetry v N LIMIT s =
     (if plainOnly v N then solve v N LIMIT 0 0 0 (s\<lparr>path := []\<rparr>)
      else let s1 = fold (firstRow N LIMIT) [0..<nat (cdiv N 2)] (s\<lparr>path := []\<rparr>)
           in if cmod N 2 = 1
              then let b = push_bit (nat (cdiv N 2)) 1
                   in pop_back (solve v N LIMIT b (push_bit 1 b) (drop_bit 1 b)
                                  (push_back (cdiv N 2 + 1) s1))
              else s1)"

text \<open>
  What \<open>main\<close> is given: no argument at all, a file that cannot be opened or does not
  start with an integer that fits \<open>int\<close>, or the board size read from it.  What it produces: one of the
  three failures with exit status 1, the text \<open>No Solution\<close> with exit status 0, or the
  summary (board size, count, records) with exit status 0.  \<open>Undefined\<close> stands for
  undefined behaviour of the C++: the shift \<open>1ULL << N\<close> with \<open>N\<close> outside \<open>0 .. 63\<close>, or
  a vector read or popped out of range.
\<close>

datatype input = NoArgument | Unreadable | Size int

datatype outcome =
  UsageError | InvalidInput | NoSolution | TempFileFailed
  | Summary int int "int list list" | Undefined

fun exitStatus :: "outcome \<Rightarrow> int option" where
  "exitStatus UsageError = Some 1"
| "exitStatus InvalidInput = Some 1"
| "exitStatus NoSolution = Some 0"
| "exitStatus TempFileFailed = Some 1"
| "exitStatus (Summary N n rs) = Some 0"
| "exitStatus Undefined = None"

definition unsolvable :: "variant \<Rightarrow> int \<Rightarrow> bool" where
  "unsolvable v N = (if v = Part_000 then N = 2 \<or> N = 3 else N < 4 \<and> N \<noteq> 1)"

text \<open>
  \<open>main\<close> returns what the caller sees and the global state at exit; \<open>tmp\<close> tells
  whether \<open>tmpfile()\<close> succeeds.
\<close>

definition main :: "variant \<Rightarrow> bool \<Rightarrow> input \<Rightarrow> outcome \<times> search" where
  "main v tmp inp =
     (case inp of
        NoArgument \<Rightarrow> (UsageError, initial)
      | Unreadable \<Rightarrow> (InvalidInput, initial)
      | Size N \<Rightarrow>
          if unsolvable v N then (NoSolution, initial)
          else if N < 0 \<or> 64 \<le> N then (Undefined, initial)
          else if \<not> tmp then (TempFileFailed, initial)
          else let s = solveWithSymmetry v N (push_bit (nat N) 1 - 1) initial
               in (if fault s then Undefined else Summary N (solutionCount s) (sink s), s))"

section \<open>The records a search writes, as a list\<close>

text \<open>
  \<open>solutions\<close> collects, in order, the records that the plain search writes from a given
  call when the stop flag stays clear; it follows the recursion of \<open>solve\<close> without the
  state.  The theorems below tie it to \<open>solve\<close> and \<open>symmetricSolve\<close>.
\<close>

function solutions :: "int \<Rightarrow> mask \<Rightarrow> mask \<Rightarrow> mask \<Rightarrow> mask \<Rightarrow> int list \<Rightarrow> int list list"
  and solutions_while :: "int \<Rightarrow> mask \<Rightarrow> mask \<Rightarrow> mask \<Rightarrow> mask \<Rightarrow> mask \<Rightarrow> int list \<Rightarrow> int list list"
where
  "solutions N LIMIT c l r p =
     (if c = LIMIT then (if int (length p) < N then [] else [take (nat N) p])
      else solutions_while N LIMIT (NOT (c OR l OR r) AND LIMIT) c l r p)"
| "solutions_while N LIMIT q c l r p =
     (if q = 0 then []
      else let b = q AND - q
           in solutions N LIMIT (c OR b) (push_bit 1 (l OR b)) (drop_bit 1 (r OR b))
                (p @ [int (ctz b) + 1])
              @ solutions_while N LIMIT (q - b) c l r p)"
  by pat_completeness auto

section \<open>Notions used to state the properties\<close>

text \<open>
  A complete solution for board size \<open>N\<close>: exactly \<open>N\<close> columns, each in \<open>1 .. N\<close>, pairwise
  distinct, and no two on a common diagonal.
\<close>

definition nonattacking :: "int list \<Rightarrow> bool" where
  "nonattacking S =
     (\<forall>i<length S. \<forall>j<length S. i \<noteq> j \<longrightarrow>
        S ! i \<noteq> S ! j \<and> \<bar>S ! i - S ! j\<bar> \<noteq> \<bar>int i - int j\<bar>)"

definition valid :: "int \<Rightarrow> int list \<Rightarrow> bool" where
  "valid N S = (int (length S) = N \<and> (\<forall>x\<in>set S. 1 \<le> x \<and> x \<le> N) \<and> nonattacking S)"

text \<open>
  The invariant of the search: the queens of the partial placement \<open>p\<close> do not attack each
  other, the mask \<open>c\<close> holds their columns, and \<open>l\<close> and \<open>r\<close> hold the columns that their
  two diagonals reach in the next row.
\<close>

definition placed :: "int \<Rightarrow> mask \<Rightarrow> mask \<Rightarrow> mask \<Rightarrow> int list \<Rightarrow> bool" where
  "placed N c l r p =
     (0 \<le> N \<and> N < 64 \<and> (\<forall>x\<in>set p. 1 \<le> x \<and> x \<le> N) \<and> nonattacking p
      \<and> (\<forall>k<64. bit c k \<longleftrightarrow> (\<exists>i<length p. p ! i = int k + 1))
      \<and> (\<forall>k<64. bit l k \<longleftrightarrow> (\<exists>i<length p. int k = p ! i - 1 + (int (length p) - int i)))
      \<and> (\<forall>k<64. bit r k \<longleftrightarrow> (\<exists>i<length p. int k + (int (length p) - int i) = p ! i - 1)))"

text \<open>Each record followed by its mirror image, as the symmetric search writes them.\<close>

definition withMirrors :: "int \<Rightarrow> int list list \<Rightarrow> int list list" where
  "withMirrors N R = concat (map (\<lambda>S. [S, map (\<lambda>x. (N + 1) - x) S]) R)"

text \<open>
  The records found with the first queen in column \<open>col\<close> (counted from 0), those of the
  first half of the columns, and those of the middle column of an odd board.
\<close>

definition firstRowSolutions :: "int \<Rightarrow> nat \<Rightarrow> int list list" where
  "firstRowSolutions N col =
     solutions N (2 ^ nat N - 1) (2 ^ col) (push_bit 1 (2 ^ col)) (drop_bit 1 (2 ^ col))
       [int col + 1]"

definition halfSolutions :: "int \<Rightarrow> int list list" where
  "halfSolutions N = concat (map (firstRowSolutions N) [0..<nat (N div 2)])"

definition middleSolutions :: "int \<Rightarrow> int list list" where
  "middleSolutions N = (if N mod 2 = 1 then firstRowSolutions N (nat (N div 2)) else [])"

text \<open>
  The order in which the search finds records: two records compare at the first row where
  they differ, and the one with the smaller column there comes first.
\<close>

definition earlier :: "int list \<Rightarrow> int list \<Rightarrow> bool" where
  "earlier S T = (\<exists>i. i < length S \<and> i < length T \<and> take i S = take i T \<and> S ! i < T ! i)"

text \<open>The count and the number of records grow together.\<close>

definition balance :: "search \<Rightarrow> int" where
  "balance s = solutionCount s - int (length (sink s))"


text \<open>Every logged placement has as many queens as its mask has set bits.\<close>

definition consistent :: "search \<Rightarrow> bool" where
  "consistent s = (\<forall>e \<in> set (observed s). length (snd e) = popcount (fst e))"

text \<open>A state between two calls made by \<open>solveWithSymmetry\<close>.\<close>

definition sound :: "search \<Rightarrow> bool" where
  "sound s = (path s = [] \<and> \<not> fault s \<and> consistent s \<and> balance s = 0)"







lemmas step_defs = observe_def increment_def printSolution_def printMirrorSolution_def
  push_back_def pop_back_def capReached_def checksStop_def FIND_ALL_LIMIT_def
  MAX_SOLUTIONS_LARGE_N_def

section \<open>The lowest set bit of a mask\<close>

lemma odd_and_neg: "odd q \<Longrightarrow> q AND - q = 1" for q :: mask
proof -
  assume o: "odd q"
  have "- q = NOT q + 1" by (simp add: minus_eq_not_plus_1)
  also have "\<dots> = NOT q OR 1" using o by (simp add: or_one_eq)
  finally have "q AND - q = (q AND NOT q) OR (q AND 1)"
    by (simp add: bit.conj_disj_distrib)
  then show ?thesis using o by (simp add: and_one_eq odd_iff_mod_2_eq_one)
qed

lemma word_nz_bit: "p \<noteq> 0 \<Longrightarrow> \<exists>i<64. bit p i" for p :: mask
proof (rule ccontr)
  assume nz: "p \<noteq> 0" and "\<not> (\<exists>i<64. bit p i)"
  then have "p = 0" by (intro bit_word_eqI) simp
  with nz show False by simp
qed

lemma ctz_below: "j < ctz p \<Longrightarrow> \<not> bit p j"
proof -
  assume j: "j < ctz p"
  let ?t = "takeWhile (\<lambda>i. \<not> bit p i) [0..<64]"
  have le: "length ?t \<le> 64" using length_takeWhile_le [of "\<lambda>i. \<not> bit p i" "[0..<64]"] by simp
  from j have "?t ! j = [0..<64] ! j" unfolding ctz_def by (rule takeWhile_nth)
  moreover have "?t ! j \<in> set ?t" using j unfolding ctz_def by (rule nth_mem)
  ultimately have "[0..<64] ! j \<in> set ?t" by simp
  moreover have "j < 64" using j le unfolding ctz_def by simp
  ultimately have "j \<in> set ?t" by simp
  then show ?thesis by (auto dest: set_takeWhileD)
qed

lemma ctz_le: "bit p i \<Longrightarrow> ctz p \<le> i"
  using ctz_below [of i p] by (cases "i < ctz p") auto

lemma ctz_bit: "p \<noteq> 0 \<Longrightarrow> ctz p < 64 \<and> bit p (ctz p)"
proof -
  assume "p \<noteq> 0"
  then obtain i where i: "i < 64" "bit p i" using word_nz_bit by blast
  then have lt: "ctz p < 64" using ctz_le [of p i] by simp
  then have "length (takeWhile (\<lambda>i. \<not> bit p i) [0..<64]) < length [0..<64]"
    by (simp add: ctz_def)
  then have "\<not> \<not> bit p ([0..<64] ! length (takeWhile (\<lambda>i. \<not> bit p i) [0..<64]))"
    by (rule nth_length_takeWhile)
  then have "bit p ([0..<64] ! ctz p)" by (simp add: ctz_def)
  with lt show ?thesis by simp
qed

lemma lowbit: 
  assumes "p \<noteq> 0" shows "p AND - p = push_bit (ctz p) 1"
proof -
  let ?k = "ctz p"
  have "take_bit ?k p = 0"
    by (rule bit_word_eqI) (simp add: bit_take_bit_iff ctz_below)
  then have p: "p = push_bit ?k (drop_bit ?k p)"
    using bits_ident [of ?k p] by simp
  have "odd (drop_bit ?k p)"
    using ctz_bit [OF assms] by (simp add: bit_iff_odd_drop_bit)
  then have one: "drop_bit ?k p AND - drop_bit ?k p = 1" by (rule odd_and_neg)
  have "p AND - p = push_bit ?k (drop_bit ?k p) AND - push_bit ?k (drop_bit ?k p)"
    using p by simp
  also have "\<dots> = push_bit ?k (drop_bit ?k p AND - drop_bit ?k p)"
    by (simp add: push_bit_and push_bit_minus)
  finally show ?thesis using one by simp
qed

lemma bit_lowbit: "p \<noteq> 0 \<Longrightarrow> bit (p AND - p) j \<longleftrightarrow> j = ctz p"
  using ctz_bit [of p] by (auto simp add: lowbit bit_exp_iff)

lemma lowbit_nz: "p \<noteq> 0 \<Longrightarrow> p AND - p \<noteq> (0::mask)"
  using bit_lowbit [of p "ctz p"] by auto

lemma ctz_lowbit: "p \<noteq> 0 \<Longrightarrow> ctz (p AND - p) = ctz p"
  using ctz_bit [of "p AND - p"] bit_lowbit [of p "ctz (p AND - p)"] lowbit_nz [of p] by simp

lemma sub_le: "b \<le> p \<Longrightarrow> b \<noteq> 0 \<Longrightarrow> p - b < p" for p :: mask
  by (meson linorder_not_less sub_wrap)

lemma or_strict: "c AND b = 0 \<Longrightarrow> b \<noteq> 0 \<Longrightarrow> c < c OR b" for c :: mask
  by (metis le_word_or2 order_le_imp_less_or_eq word_ao_equiv)

lemma sub_lowbit: "p - (p AND - p) = p AND NOT (p AND - p)" for p :: mask
  by (metis (no_types, lifting) and_eq_minus_1_iff and_eq_not_not_or
    bit.compl_one bit.de_Morgan_disj bit.disj_conj_distrib2
    disjunctive_diff_eq_and_not word_or_not) 

lemma unat_lt: "unat (w :: mask) < 2 ^ 64"
  using unsigned_less [of w] by simp

text \<open>Three facts about the masks of the search; each recursion below terminates by them.\<close>

lemma possible_disjoint: "(NOT (c OR l OR r) AND L) AND c = 0" for c :: mask
  by (rule bit_word_eqI) (auto simp add: bit_and_iff bit_not_iff bit_or_iff)

lemma descend_or:
  fixes p c :: mask
  assumes "p \<noteq> 0"
  shows "unat c \<le> unat (c OR (p AND - p))"
    and "p AND c = 0 \<Longrightarrow> unat c < unat (c OR (p AND - p))"
proof -
  show "unat c \<le> unat (c OR (p AND - p))"
    using le_word_or2 word_le_nat_alt by blast
  assume z: "p AND c = 0"
  have "c AND (p AND - p) = (p AND c) AND - p" by (simp add: ac_simps)
  then have "c AND (p AND - p) = 0" using z by simp
  then show "unat c < unat (c OR (p AND - p))"
    using lowbit_nz [OF assms] or_strict word_less_nat_alt by blast
qed

lemma descend_sub:
  fixes p c :: mask
  assumes "p \<noteq> 0"
  shows "unat (p - (p AND - p)) < unat p"
    and "p AND c = 0 \<Longrightarrow> (p - (p AND - p)) AND c = 0"
proof -
  have "p AND - p \<le> p" by (simp add: word_and_le2)
  then have "p - (p AND - p) < p" using lowbit_nz [OF assms] by (rule sub_le)
  then show "unat (p - (p AND - p)) < unat p" by (simp add: word_less_nat_alt)
  assume z: "p AND c = 0"
  have "(p - (p AND - p)) AND c = (p AND c) AND NOT (p AND - p)"
    by (simp add: sub_lowbit ac_simps)
  with z show "(p - (p AND - p)) AND c = 0" by simp
qed

section \<open>The searches terminate\<close>

termination solve
proof (relation "inv_image (less_than <*lex*> less_than <*lex*> less_than)
     (\<lambda>x. case x of
        Inl (v, N, L, c, l, r, s) \<Rightarrow> (2 ^ 64 - unat c, 1::nat, 0::nat)
      | Inr (v, N, L, p, c, l, r, s) \<Rightarrow>
          (2 ^ 64 - unat c + (if p AND c = 0 then 0 else 1), 0, unat p))", goal_cases)
  case 1
  show ?case by (intro wf_inv_image wf_lex_prod wf_less_than)
next
  case (2 v N LIMIT cols diagLeft diagRight s)
  then show ?case using possible_disjoint [of cols diagLeft diagRight LIMIT] by simp
next
  case (3 v N LIMIT possible cols diagLeft diagRight s b)
  then show ?case
    using descend_or [of possible cols] unat_lt [of "cols OR (possible AND - possible)"]
    by auto
next
  case (4 v N LIMIT possible cols diagLeft diagRight s b)
  then show ?case
    using descend_sub(1) [of possible] descend_sub(2) [of possible cols] by auto
qed

termination symmetricSolve
proof (relation "inv_image (less_than <*lex*> less_than <*lex*> less_than)
     (\<lambda>x. case x of
        Inl (N, L, c, l, r, s) \<Rightarrow> (2 ^ 64 - unat c, 1::nat, 0::nat)
      | Inr (N, L, p, c, l, r, s) \<Rightarrow>
          (2 ^ 64 - unat c + (if p AND c = 0 then 0 else 1), 0, unat p))", goal_cases)
  case 1
  show ?case by (intro wf_inv_image wf_lex_prod wf_less_than)
next
  case (2 N LIMIT c l r s)
  then show ?case using possible_disjoint [of c l r LIMIT] by simp
next
  case (3 N LIMIT p c l r s b)
  then show ?case
    using descend_or [of p c] unat_lt [of "c OR (p AND - p)"] by auto
next
  case (4 N LIMIT p c l r s b)
  then show ?case
    using descend_sub(1) [of p] descend_sub(2) [of p c] by auto
qed

termination solutions
proof (relation "inv_image (less_than <*lex*> less_than <*lex*> less_than)
     (\<lambda>x. case x of
        Inl (N, L, c, l, r, p) \<Rightarrow> (2 ^ 64 - unat c, 1::nat, 0::nat)
      | Inr (N, L, q, c, l, r, p) \<Rightarrow>
          (2 ^ 64 - unat c + (if q AND c = 0 then 0 else 1), 0, unat q))", goal_cases)
  case 1
  show ?case by (intro wf_inv_image wf_lex_prod wf_less_than)
next
  case (2 N LIMIT c l r p)
  then show ?case using possible_disjoint [of c l r LIMIT] by simp
next
  case (3 N LIMIT q c l r p b)
  then show ?case
    using descend_or [of q c] unat_lt [of "c OR (q AND - q)"] by auto
next
  case (4 N LIMIT q c l r p b)
  then show ?case
    using descend_sub(1) [of q] descend_sub(2) [of q c] by auto
qed

section \<open>The effect of one call of the search\<close>

declare solve.simps [simp del] solve_while.simps [simp del]
declare symmetricSolve.simps [simp del] symmetricSolve_while.simps [simp del]
declare solutions.simps [simp del] solutions_while.simps [simp del]

lemma observe_proj [simp]:
  "path (observe c s) = path s" "sink (observe c s) = sink s"
  "fault (observe c s) = fault s" "stopSearch (observe c s) = stopSearch s"
  "solutionCount (observe c s) = solutionCount s"
  "observed (observe c s) = observed s @ [(c, path s)]"
  by (simp_all add: observe_def)

lemma increment_proj [simp]:
  "path (increment s) = path s" "sink (increment s) = sink s"
  "fault (increment s) = fault s" "stopSearch (increment s) = stopSearch s"
  "solutionCount (increment s) = solutionCount s + 1"
  "observed (increment s) = observed s"
  by (simp_all add: increment_def)

lemma push_back_proj [simp]:
  "path (push_back x s) = path s @ [x]" "sink (push_back x s) = sink s"
  "fault (push_back x s) = fault s" "stopSearch (push_back x s) = stopSearch s"
  "solutionCount (push_back x s) = solutionCount s"
  "observed (push_back x s) = observed s"
  by (simp_all add: push_back_def)

lemma pop_back_proj [simp]:
  "path (pop_back s) = butlast (path s)" "sink (pop_back s) = sink s"
  "fault (pop_back s) = (fault s \<or> path s = [])" "stopSearch (pop_back s) = stopSearch s"
  "solutionCount (pop_back s) = solutionCount s"
  "observed (pop_back s) = observed s"
  by (simp_all add: pop_back_def)

lemma printSolution_proj [simp]:
  "path (printSolution N s) = path s"
  "sink (printSolution N s) =
     sink s @ (if int (length (path s)) < N then [] else [take (nat N) (path s)])"
  "fault (printSolution N s) = (fault s \<or> int (length (path s)) < N)"
  "stopSearch (printSolution N s) = stopSearch s"
  "solutionCount (printSolution N s) = solutionCount s"
  "observed (printSolution N s) = observed s"
  by (simp_all add: printSolution_def)

lemma printMirrorSolution_proj [simp]:
  "path (printMirrorSolution N s) = path s"
  "sink (printMirrorSolution N s) =
     sink s @ (if int (length (path s)) < N then []
               else [map (\<lambda>x. (N + 1) - x) (take (nat N) (path s))])"
  "fault (printMirrorSolution N s) = (fault s \<or> int (length (path s)) < N)"
  "stopSearch (printMirrorSolution N s) = stopSearch s"
  "solutionCount (printMirrorSolution N s) = solutionCount s"
  "observed (printMirrorSolution N s) = observed s"
  by (simp_all add: printMirrorSolution_def)

lemma capReached_proj [simp]:
  "path (capReached v N s) = path s" "sink (capReached v N s) = sink s"
  "fault (capReached v N s) = fault s"
  "solutionCount (capReached v N s) = solutionCount s"
  "observed (capReached v N s) = observed s"
  by (simp_all add: capReached_def)

lemma solve_while_done:
  "possible = 0 \<or> (checksStop v \<and> stopSearch s) \<Longrightarrow>
     solve_while v N LIMIT possible cols diagLeft diagRight s = s"
  by (subst solve_while.simps) auto

lemma solve_while_step:
  "possible \<noteq> 0 \<Longrightarrow> \<not> (checksStop v \<and> stopSearch s) \<Longrightarrow>
     solve_while v N LIMIT possible cols diagLeft diagRight s =
       solve_while v N LIMIT (possible - (possible AND - possible)) cols diagLeft diagRight
         (observe cols (pop_back
            (solve v N LIMIT (cols OR (possible AND - possible))
               (push_bit 1 (diagLeft OR (possible AND - possible)))
               (drop_bit 1 (diagRight OR (possible AND - possible)))
               (push_back (int (ctz (possible AND - possible)) + 1) s))))"
  by (subst solve_while.simps) (simp only: Let_def if_False simp_thms)

lemma solve_stopped:
  "checksStop v \<and> stopSearch s \<Longrightarrow>
     solve v N LIMIT cols diagLeft diagRight s = observe cols s"
  by (subst solve.simps) (simp only: if_True simp_thms)

lemma solve_leaf:
  "\<not> (checksStop v \<and> stopSearch s) \<Longrightarrow> cols = LIMIT \<Longrightarrow>
     solve v N LIMIT cols diagLeft diagRight s =
       capReached v N (printSolution N (increment (observe cols s)))"
  by (subst solve.simps) (simp only: if_True if_False simp_thms)

lemma solve_inner:
  "\<not> (checksStop v \<and> stopSearch s) \<Longrightarrow> cols \<noteq> LIMIT \<Longrightarrow>
     solve v N LIMIT cols diagLeft diagRight s =
       solve_while v N LIMIT (NOT (cols OR diagLeft OR diagRight) AND LIMIT)
         cols diagLeft diagRight (observe cols s)"
  by (subst solve.simps) (simp only: if_False simp_thms)

lemma solutions_leaf:
  "c = LIMIT \<Longrightarrow> solutions N LIMIT c l r p =
     (if int (length p) < N then [] else [take (nat N) p])"
  by (subst solutions.simps) (simp only: if_True simp_thms)

lemma solutions_inner:
  "c \<noteq> LIMIT \<Longrightarrow> solutions N LIMIT c l r p =
     solutions_while N LIMIT (NOT (c OR l OR r) AND LIMIT) c l r p"
  by (subst solutions.simps) (simp only: if_False simp_thms)

lemma solve_path:
  shows "path (solve v N LIMIT cols diagLeft diagRight s) = path s"
    and "path (solve_while v N LIMIT possible cols diagLeft diagRight s) = path s"
proof (induction v N LIMIT cols diagLeft diagRight s and v N LIMIT possible cols diagLeft diagRight s
    rule: solve_solve_while.induct)
  case (1 v N LIMIT cols diagLeft diagRight s)
  then show ?case
    by (cases "checksStop v \<and> stopSearch s"; cases "cols = LIMIT")
      (simp_all add: solve_stopped solve_leaf solve_inner)
next
  case (2 v N LIMIT possible cols diagLeft diagRight s)
  show ?case
  proof (cases "possible = 0 \<or> (checksStop v \<and> stopSearch s)")
    case True
    then show ?thesis by (simp add: solve_while_done)
  next
    case False
    then show ?thesis
      using 2 by (simp add: solve_while_step)
  qed
qed

lemma solutions_while_done: "solutions_while N LIMIT 0 c l r p = []"
  by (subst solutions_while.simps) simp

lemma solutions_while_step:
  "q \<noteq> 0 \<Longrightarrow> solutions_while N LIMIT q c l r p =
     solutions N LIMIT (c OR (q AND - q)) (push_bit 1 (l OR (q AND - q)))
       (drop_bit 1 (r OR (q AND - q))) (p @ [int (ctz (q AND - q)) + 1])
     @ solutions_while N LIMIT (q - (q AND - q)) c l r p"
  by (subst solutions_while.simps) (simp only: Let_def if_False simp_thms)

lemma solve_sink:
  shows "(\<exists>k. sink (solve v N LIMIT cols diagLeft diagRight s) =
            sink s @ take k (solutions N LIMIT cols diagLeft diagRight (path s)))
       \<and> (\<not> (checksStop v \<and> stopSearch (solve v N LIMIT cols diagLeft diagRight s)) \<longrightarrow>
            sink (solve v N LIMIT cols diagLeft diagRight s) =
              sink s @ solutions N LIMIT cols diagLeft diagRight (path s))"
    and "(\<exists>k. sink (solve_while v N LIMIT possible cols diagLeft diagRight s) =
            sink s @ take k (solutions_while N LIMIT possible cols diagLeft diagRight (path s)))
       \<and> (\<not> (checksStop v \<and> stopSearch (solve_while v N LIMIT possible cols diagLeft diagRight s)) \<longrightarrow>
            sink (solve_while v N LIMIT possible cols diagLeft diagRight s) =
              sink s @ solutions_while N LIMIT possible cols diagLeft diagRight (path s))"
proof (induction v N LIMIT cols diagLeft diagRight s and v N LIMIT possible cols diagLeft diagRight s
    rule: solve_solve_while.induct)
  case (1 v N LIMIT cols diagLeft diagRight s)
  show ?case
  proof (cases "checksStop v \<and> stopSearch s")
    case True
    then have "solve v N LIMIT cols diagLeft diagRight s = observe cols s"
      by (rule solve_stopped)
    then show ?thesis using True by (auto intro: exI [of _ 0])
  next
    case False
    show ?thesis
    proof (cases "cols = LIMIT")
      case True
      have e: "solve v N LIMIT cols diagLeft diagRight s =
          capReached v N (printSolution N (increment (observe cols s)))"
        using False True by (rule solve_leaf)
      have r: "solutions N LIMIT cols diagLeft diagRight (path s) =
          (if int (length (path s)) < N then [] else [take (nat N) (path s)])"
        using True by (rule solutions_leaf)
      show ?thesis unfolding e r by (auto intro: exI [of _ 1])
    next
      case ne: False
      have e: "solve v N LIMIT cols diagLeft diagRight s =
          solve_while v N LIMIT (NOT (cols OR diagLeft OR diagRight) AND LIMIT)
            cols diagLeft diagRight (observe cols s)"
        using False ne by (rule solve_inner)
      have r: "solutions N LIMIT cols diagLeft diagRight (path s) =
          solutions_while N LIMIT (NOT (cols OR diagLeft OR diagRight) AND LIMIT)
            cols diagLeft diagRight (path s)"
        using ne by (rule solutions_inner)
      show ?thesis unfolding e r using 1 [OF False ne] by simp
    qed
  qed
next
  case (2 v N LIMIT possible cols diagLeft diagRight s)
  show ?case
  proof (cases "possible = 0 \<or> (checksStop v \<and> stopSearch s)")
    case True
    then show ?thesis
      by (auto simp add: solve_while_done solutions_while_done intro: exI [of _ 0])
  next
    case False
    define b where "b = possible AND - possible"
    define s1 where "s1 = push_back (int (ctz b) + 1) s"
    define s2 where "s2 = solve v N LIMIT (cols OR b) (push_bit 1 (diagLeft OR b))
      (drop_bit 1 (diagRight OR b)) s1"
    define s3 where "s3 = observe cols (pop_back s2)"
    define R1 where "R1 = solutions N LIMIT (cols OR b) (push_bit 1 (diagLeft OR b))
      (drop_bit 1 (diagRight OR b)) (path s @ [int (ctz b) + 1])"
    define R2 where "R2 = solutions_while N LIMIT (possible - b) cols diagLeft diagRight (path s)"
    from False have nz: "possible \<noteq> 0" and ns: "\<not> (checksStop v \<and> stopSearch s)" by auto
    have e: "solve_while v N LIMIT possible cols diagLeft diagRight s =
        solve_while v N LIMIT (possible - b) cols diagLeft diagRight s3"
      unfolding s3_def s2_def s1_def b_def by (rule solve_while_step [OF nz ns])
    have r: "solutions_while N LIMIT possible cols diagLeft diagRight (path s) = R1 @ R2"
      unfolding R1_def R2_def b_def by (rule solutions_while_step [OF nz])
    have p1: "path s1 = path s @ [int (ctz b) + 1]" "sink s1 = sink s"
      by (simp_all add: s1_def)
    have p3: "path s3 = path s"
      by (simp add: s3_def s2_def p1 solve_path)
    note ih1 = "2.IH"(1) [OF nz ns b_def, folded s1_def, folded s2_def, unfolded p1,
        folded R1_def]
    note ih2 = "2.IH"(2) [OF nz ns b_def, folded s1_def, folded s2_def, folded s3_def,
        unfolded p3, folded R2_def]
    have k3: "sink s3 = sink s2" "stopSearch s3 = stopSearch s2" by (simp_all add: s3_def)
    show ?thesis
    proof (cases "checksStop v \<and> stopSearch s2")
      case True
      then have d: "solve_while v N LIMIT (possible - b) cols diagLeft diagRight s3 = s3"
        by (simp add: solve_while_done k3)
      from ih1 obtain k where k: "sink s2 = sink s @ take k R1" by blast
      have "take k R1 = take (min k (length R1)) (R1 @ R2)"
        by (cases "k \<le> length R1") (simp_all add: min_def)
      then have "sink s3 = sink s @ take (min k (length R1)) (R1 @ R2)" using k k3 by simp
      then show ?thesis unfolding e r d using True k3 by blast
    next
      case False
      then have f: "sink s3 = sink s @ R1" using ih1 k3 by simp
      from ih2 obtain k where k: "sink (solve_while v N LIMIT (possible - b) cols diagLeft diagRight s3) =
          sink s3 @ take k R2" by blast
      have "R1 @ take k R2 = take (length R1 + k) (R1 @ R2)" by simp
      then have "sink (solve_while v N LIMIT (possible - b) cols diagLeft diagRight s3) =
          sink s @ take (length R1 + k) (R1 @ R2)" using k f by simp
      then have a: "\<exists>k. sink (solve_while v N LIMIT (possible - b) cols diagLeft diagRight s3) =
          sink s @ take k (R1 @ R2)" by (rule exI)
      have b: "\<not> (checksStop v \<and>
            stopSearch (solve_while v N LIMIT (possible - b) cols diagLeft diagRight s3)) \<longrightarrow>
          sink (solve_while v N LIMIT (possible - b) cols diagLeft diagRight s3) =
            sink s @ R1 @ R2" using ih2 f by simp
      show ?thesis unfolding e r using a b by (rule conjI)
    qed
  qed
qed

lemma capReached_small:
  "\<not> (v = Solver_cpp \<and> FIND_ALL_LIMIT \<le> N) \<Longrightarrow> capReached v N s = s"
  by (auto simp add: capReached_def)

lemma solve_keeps_flag:
  assumes "\<not> (v = Solver_cpp \<and> FIND_ALL_LIMIT \<le> N)"
  shows "stopSearch (solve v N LIMIT cols diagLeft diagRight s) = stopSearch s"
    and "stopSearch (solve_while v N LIMIT possible cols diagLeft diagRight s) = stopSearch s"
  using assms
proof (induction v N LIMIT cols diagLeft diagRight s and v N LIMIT possible cols diagLeft diagRight s
    rule: solve_solve_while.induct)
  case (1 v N LIMIT cols diagLeft diagRight s)
  then show ?case
    by (cases "checksStop v \<and> stopSearch s"; cases "cols = LIMIT")
      (simp_all add: solve_stopped solve_leaf solve_inner capReached_small)
next
  case (2 v N LIMIT possible cols diagLeft diagRight s)
  show ?case
  proof (cases "possible = 0 \<or> (checksStop v \<and> stopSearch s)")
    case True
    then show ?thesis by (simp add: solve_while_done)
  next
    case False
    then show ?thesis
      using 2 by (simp add: solve_while_step)
  qed
qed

lemma solve_balance:
  shows "(fault s \<longrightarrow> fault (solve v N LIMIT cols diagLeft diagRight s))
       \<and> (\<not> fault (solve v N LIMIT cols diagLeft diagRight s) \<longrightarrow>
            balance (solve v N LIMIT cols diagLeft diagRight s) = balance s)"
    and "(fault s \<longrightarrow> fault (solve_while v N LIMIT possible cols diagLeft diagRight s))
       \<and> (\<not> fault (solve_while v N LIMIT possible cols diagLeft diagRight s) \<longrightarrow>
            balance (solve_while v N LIMIT possible cols diagLeft diagRight s) = balance s)"
proof (induction v N LIMIT cols diagLeft diagRight s and v N LIMIT possible cols diagLeft diagRight s
    rule: solve_solve_while.induct)
  case (1 v N LIMIT cols diagLeft diagRight s)
  show ?case
  proof (cases "checksStop v \<and> stopSearch s")
    case True
    then show ?thesis by (simp add: solve_stopped balance_def)
  next
    case False
    show ?thesis
    proof (cases "cols = LIMIT")
      case True
      then show ?thesis using False by (simp add: solve_leaf balance_def)
    next
      case ne: False
      have "balance (observe cols s) = balance s" by (simp add: balance_def)
      then show ?thesis using 1 [OF False ne] False ne by (simp add: solve_inner)
    qed
  qed
next
  case (2 v N LIMIT possible cols diagLeft diagRight s)
  show ?case
  proof (cases "possible = 0 \<or> (checksStop v \<and> stopSearch s)")
    case True
    then show ?thesis by (simp add: solve_while_done)
  next
    case False
    define b where "b = possible AND - possible"
    define s1 where "s1 = push_back (int (ctz b) + 1) s"
    define s2 where "s2 = solve v N LIMIT (cols OR b) (push_bit 1 (diagLeft OR b))
      (drop_bit 1 (diagRight OR b)) s1"
    define s3 where "s3 = observe cols (pop_back s2)"
    from False have nz: "possible \<noteq> 0" and ns: "\<not> (checksStop v \<and> stopSearch s)" by auto
    have e: "solve_while v N LIMIT possible cols diagLeft diagRight s =
        solve_while v N LIMIT (possible - b) cols diagLeft diagRight s3"
      unfolding s3_def s2_def s1_def b_def by (rule solve_while_step [OF nz ns])
    note ih1 = "2.IH"(1) [OF nz ns b_def, folded s1_def, folded s2_def]
    note ih2 = "2.IH"(2) [OF nz ns b_def, folded s1_def, folded s2_def, folded s3_def]
    have k1: "fault s1 = fault s" "balance s1 = balance s"
      by (simp_all add: s1_def balance_def)
    have k3: "fault s2 \<longrightarrow> fault s3" "\<not> fault s3 \<longrightarrow> balance s3 = balance s2"
      by (simp_all add: s3_def balance_def)
    show ?thesis unfolding e using ih1 ih2 k1 k3 by auto
  qed
qed


section \<open>Counting the set bits\<close>

lemma popcount_card: "popcount w = card {i. i < 64 \<and> bit w i}"
proof -
  have "popcount w = card ({i. bit w i} \<inter> set [0..<64])"
    unfolding popcount_def by (rule distinct_length_filter) simp
  also have "{i. bit w i} \<inter> set [0..<64] = {i. i < 64 \<and> bit w i}" by auto
  finally show ?thesis .
qed

lemma popcount_or_bit:
  assumes "k < 64" "\<not> bit w k"
  shows "popcount (w OR push_bit k 1) = Suc (popcount w)"
proof -
  have "{i. i < 64 \<and> bit (w OR push_bit k 1) i} = insert k {i. i < 64 \<and> bit w i}"
    using assms by (auto simp add: bit_or_iff bit_exp_iff)
  moreover have "k \<notin> {i. i < 64 \<and> bit w i}" using assms by simp
  moreover have "finite {i. i < 64 \<and> bit w i}" by simp
  ultimately show ?thesis by (simp add: popcount_card)
qed

lemma bit_limit: "n < 64 \<Longrightarrow> bit (2 ^ n - 1 :: mask) i \<longleftrightarrow> i < n"
proof -
  assume n: "n < 64"
  have "(2 ^ n - 1 :: mask) = mask n" by (simp add: mask_eq_exp_minus_1)
  then show ?thesis using n by (auto simp add: bit_mask_iff)
qed

lemma popcount_limit: "n < 64 \<Longrightarrow> popcount (push_bit n 1 - 1) = n"
proof -
  assume n: "n < 64"
  then have "{i. i < 64 \<and> bit (push_bit n 1 - 1 :: mask) i} = {i. i < n}"
    by (auto simp add: bit_limit)
  then show ?thesis by (simp add: popcount_card)
qed

lemma popcount_zero: "popcount 0 = 0"
  by (simp add: popcount_card)

lemma lowbit_fresh:
  fixes possible cols :: mask
  assumes "possible \<noteq> 0" "possible AND cols = 0"
  shows "popcount (cols OR (possible AND - possible)) = Suc (popcount cols)"
proof -
  have k: "ctz possible < 64" "bit possible (ctz possible)"
    using ctz_bit [OF assms(1)] by simp_all
  have "\<not> bit (possible AND cols) (ctz possible)" using assms(2) by simp
  then have "\<not> bit cols (ctz possible)" using k by (simp add: bit_and_iff)
  with k(1) have "popcount (cols OR push_bit (ctz possible) 1) = Suc (popcount cols)"
    by (rule popcount_or_bit)
  then show ?thesis by (simp only: lowbit [OF assms(1)])
qed

section \<open>The placement and the occupied columns\<close>

lemma solve_consistent:
  shows "length (path s) = popcount cols \<Longrightarrow> int (popcount LIMIT) = N \<Longrightarrow> consistent s \<Longrightarrow>
      consistent (solve v N LIMIT cols diagLeft diagRight s)
      \<and> fault (solve v N LIMIT cols diagLeft diagRight s) = fault s"
    and "length (path s) = popcount cols \<Longrightarrow> possible AND cols = 0 \<Longrightarrow>
      int (popcount LIMIT) = N \<Longrightarrow> consistent s \<Longrightarrow>
      consistent (solve_while v N LIMIT possible cols diagLeft diagRight s)
      \<and> fault (solve_while v N LIMIT possible cols diagLeft diagRight s) = fault s"
proof (induction v N LIMIT cols diagLeft diagRight s and v N LIMIT possible cols diagLeft diagRight s
    rule: solve_solve_while.induct)
  case (1 v N LIMIT cols diagLeft diagRight s)
  have o: "consistent (observe cols s)"
    using "1.prems" by (simp add: consistent_def)
  show ?case
  proof (cases "checksStop v \<and> stopSearch s")
    case True
    then show ?thesis using o by (simp add: solve_stopped)
  next
    case False
    show ?thesis
    proof (cases "cols = LIMIT")
      case True
      then show ?thesis using False o "1.prems"
        by (auto simp add: solve_leaf consistent_def)
    next
      case ne: False
      have d: "(NOT (cols OR diagLeft OR diagRight) AND LIMIT) AND cols = 0"
        by (rule possible_disjoint)
      show ?thesis using "1.IH" [OF False ne _ d "1.prems"(2) o] "1.prems"(1) False ne
        by (simp add: solve_inner)
    qed
  qed
next
  case (2 v N LIMIT possible cols diagLeft diagRight s)
  show ?case
  proof (cases "possible = 0 \<or> (checksStop v \<and> stopSearch s)")
    case True
    then show ?thesis using "2.prems" by (simp add: solve_while_done)
  next
    case False
    define b where "b = possible AND - possible"
    define s1 where "s1 = push_back (int (ctz b) + 1) s"
    define s2 where "s2 = solve v N LIMIT (cols OR b) (push_bit 1 (diagLeft OR b))
      (drop_bit 1 (diagRight OR b)) s1"
    define s3 where "s3 = observe cols (pop_back s2)"
    from False have nz: "possible \<noteq> 0" and ns: "\<not> (checksStop v \<and> stopSearch s)" by auto
    have e: "solve_while v N LIMIT possible cols diagLeft diagRight s =
        solve_while v N LIMIT (possible - b) cols diagLeft diagRight s3"
      unfolding s3_def s2_def s1_def b_def by (rule solve_while_step [OF nz ns])
    note ih1 = "2.IH"(1) [OF nz ns b_def, folded s1_def, folded s2_def]
    note ih2 = "2.IH"(2) [OF nz ns b_def, folded s1_def, folded s2_def, folded s3_def]
    have l1: "length (path s1) = popcount (cols OR b)"
      using lowbit_fresh [OF nz "2.prems"(2)] "2.prems"(1) by (simp add: s1_def b_def)
    have c1: "consistent s1" using "2.prems"(4) by (simp add: s1_def consistent_def)
    have r2: "consistent s2" "fault s2 = fault s1"
      using ih1 [OF l1 "2.prems"(3) c1] by simp_all
    have p2: "path s2 = path s @ [int (ctz b) + 1]"
      by (simp add: s2_def s1_def solve_path)
    have p3: "path s3 = path s" "fault s3 = fault s"
      using r2(2) by (simp_all add: s3_def p2 s1_def)
    have c3: "consistent s3"
      using r2(1) "2.prems"(1) by (simp add: s3_def consistent_def p2)
    have d3: "(possible - b) AND cols = 0"
      unfolding b_def by (rule descend_sub(2) [OF nz "2.prems"(2)])
    show ?thesis unfolding e
      using ih2 [OF _ d3 "2.prems"(3) c3] p3 "2.prems"(1) by simp
  qed
qed

section \<open>The symmetric search\<close>

lemma withMirrors_append: "withMirrors N (A @ B) = withMirrors N A @ withMirrors N B"
  by (simp add: withMirrors_def)

lemma withMirrors_simps [simp]:
  "withMirrors N [] = []"
  "withMirrors N (S # R) = S # map (\<lambda>x. (N + 1) - x) S # withMirrors N R"
  by (simp_all add: withMirrors_def)

lemma length_withMirrors: "length (withMirrors N R) = 2 * length R"
  by (induction R) simp_all

lemma symmetricSolve_leaf:
  "c = LIMIT \<Longrightarrow> symmetricSolve N LIMIT c l r s =
     printMirrorSolution N (increment (printSolution N (increment (observe c s))))"
  by (subst symmetricSolve.simps) (simp only: if_True simp_thms)

lemma symmetricSolve_inner:
  "c \<noteq> LIMIT \<Longrightarrow> symmetricSolve N LIMIT c l r s =
     symmetricSolve_while N LIMIT (NOT (c OR l OR r) AND LIMIT) c l r (observe c s)"
  by (subst symmetricSolve.simps) (simp only: if_False simp_thms)

lemma symmetricSolve_while_done: "symmetricSolve_while N LIMIT 0 c l r s = s"
  by (subst symmetricSolve_while.simps) simp

lemma symmetricSolve_while_step:
  "p \<noteq> 0 \<Longrightarrow> symmetricSolve_while N LIMIT p c l r s =
     symmetricSolve_while N LIMIT (p - (p AND - p)) c l r
       (observe c (pop_back
          (symmetricSolve N LIMIT (c OR (p AND - p)) (push_bit 1 (l OR (p AND - p)))
             (drop_bit 1 (r OR (p AND - p)))
             (push_back (int (ctz (p AND - p)) + 1) s))))"
  by (subst symmetricSolve_while.simps) (simp only: Let_def if_False simp_thms)

lemma symmetricSolve_path:
  shows "path (symmetricSolve N LIMIT c l r s) = path s"
    and "path (symmetricSolve_while N LIMIT p c l r s) = path s"
proof (induction N LIMIT c l r s and N LIMIT p c l r s
    rule: symmetricSolve_symmetricSolve_while.induct)
  case (1 N LIMIT c l r s)
  then show ?case
    by (cases "c = LIMIT") (simp_all add: symmetricSolve_leaf symmetricSolve_inner)
next
  case (2 N LIMIT p c l r s)
  then show ?case
    by (cases "p = 0") (simp_all add: symmetricSolve_while_done symmetricSolve_while_step)
qed

lemma symmetricSolve_flag:
  shows "stopSearch (symmetricSolve N LIMIT c l r s) = stopSearch s"
    and "stopSearch (symmetricSolve_while N LIMIT p c l r s) = stopSearch s"
proof (induction N LIMIT c l r s and N LIMIT p c l r s
    rule: symmetricSolve_symmetricSolve_while.induct)
  case (1 N LIMIT c l r s)
  then show ?case
    by (cases "c = LIMIT") (simp_all add: symmetricSolve_leaf symmetricSolve_inner)
next
  case (2 N LIMIT p c l r s)
  then show ?case
    by (cases "p = 0") (simp_all add: symmetricSolve_while_done symmetricSolve_while_step)
qed

lemma symmetricSolve_sink:
  shows "sink (symmetricSolve N LIMIT c l r s) =
      sink s @ withMirrors N (solutions N LIMIT c l r (path s))"
    and "sink (symmetricSolve_while N LIMIT p c l r s) =
      sink s @ withMirrors N (solutions_while N LIMIT p c l r (path s))"
proof (induction N LIMIT c l r s and N LIMIT p c l r s
    rule: symmetricSolve_symmetricSolve_while.induct)
  case (1 N LIMIT c l r s)
  then show ?case
    by (cases "c = LIMIT")
      (simp_all add: symmetricSolve_leaf symmetricSolve_inner solutions_leaf solutions_inner)
next
  case (2 N LIMIT p c l r s)
  show ?case
  proof (cases "p = 0")
    case True
    then show ?thesis by (simp add: symmetricSolve_while_done solutions_while_done)
  next
    case False
    define b where "b = p AND - p"
    define s1 where "s1 = push_back (int (ctz b) + 1) s"
    define s2 where "s2 = symmetricSolve N LIMIT (c OR b) (push_bit 1 (l OR b))
      (drop_bit 1 (r OR b)) s1"
    define s3 where "s3 = observe c (pop_back s2)"
    define R1 where "R1 = solutions N LIMIT (c OR b) (push_bit 1 (l OR b))
      (drop_bit 1 (r OR b)) (path s @ [int (ctz b) + 1])"
    define R2 where "R2 = solutions_while N LIMIT (p - b) c l r (path s)"
    have e: "symmetricSolve_while N LIMIT p c l r s = symmetricSolve_while N LIMIT (p - b) c l r s3"
      unfolding s3_def s2_def s1_def b_def by (rule symmetricSolve_while_step [OF False])
    have r: "solutions_while N LIMIT p c l r (path s) = R1 @ R2"
      unfolding R1_def R2_def b_def by (rule solutions_while_step [OF False])
    have p1: "path s1 = path s @ [int (ctz b) + 1]" "sink s1 = sink s"
      by (simp_all add: s1_def)
    have p3: "path s3 = path s" "sink s3 = sink s2"
      by (simp_all add: s3_def s2_def p1 symmetricSolve_path)
    note ih1 = "2.IH"(1) [OF False b_def, folded s1_def, folded s2_def, unfolded p1,
        folded R1_def]
    note ih2 = "2.IH"(2) [OF False b_def, folded s1_def, folded s2_def, folded s3_def,
        unfolded p3, folded R2_def]
    show ?thesis unfolding e r using ih1 ih2 by (simp add: withMirrors_append)
  qed
qed

lemma symmetricSolve_balance:
  shows "(fault s \<longrightarrow> fault (symmetricSolve N LIMIT c l r s))
       \<and> (\<not> fault (symmetricSolve N LIMIT c l r s) \<longrightarrow>
            balance (symmetricSolve N LIMIT c l r s) = balance s)"
    and "(fault s \<longrightarrow> fault (symmetricSolve_while N LIMIT p c l r s))
       \<and> (\<not> fault (symmetricSolve_while N LIMIT p c l r s) \<longrightarrow>
            balance (symmetricSolve_while N LIMIT p c l r s) = balance s)"
proof (induction N LIMIT c l r s and N LIMIT p c l r s
    rule: symmetricSolve_symmetricSolve_while.induct)
  case (1 N LIMIT c l r s)
  show ?case
  proof (cases "c = LIMIT")
    case True
    then show ?thesis by (simp add: symmetricSolve_leaf balance_def)
  next
    case False
    have "balance (observe c s) = balance s" by (simp add: balance_def)
    then show ?thesis using 1 [OF False] False by (simp add: symmetricSolve_inner)
  qed
next
  case (2 N LIMIT p c l r s)
  show ?case
  proof (cases "p = 0")
    case True
    then show ?thesis by (simp add: symmetricSolve_while_done)
  next
    case False
    define b where "b = p AND - p"
    define s1 where "s1 = push_back (int (ctz b) + 1) s"
    define s2 where "s2 = symmetricSolve N LIMIT (c OR b) (push_bit 1 (l OR b))
      (drop_bit 1 (r OR b)) s1"
    define s3 where "s3 = observe c (pop_back s2)"
    have e: "symmetricSolve_while N LIMIT p c l r s = symmetricSolve_while N LIMIT (p - b) c l r s3"
      unfolding s3_def s2_def s1_def b_def by (rule symmetricSolve_while_step [OF False])
    note ih1 = "2.IH"(1) [OF False b_def, folded s1_def, folded s2_def]
    note ih2 = "2.IH"(2) [OF False b_def, folded s1_def, folded s2_def, folded s3_def]
    have k1: "fault s1 = fault s" "balance s1 = balance s"
      by (simp_all add: s1_def balance_def)
    have k3: "fault s2 \<longrightarrow> fault s3" "\<not> fault s3 \<longrightarrow> balance s3 = balance s2"
      by (simp_all add: s3_def balance_def)
    show ?thesis unfolding e using ih1 ih2 k1 k3 by auto
  qed
qed

lemma symmetricSolve_consistent:
  shows "length (path s) = popcount c \<Longrightarrow> int (popcount LIMIT) = N \<Longrightarrow> consistent s \<Longrightarrow>
      consistent (symmetricSolve N LIMIT c l r s)
      \<and> fault (symmetricSolve N LIMIT c l r s) = fault s"
    and "length (path s) = popcount c \<Longrightarrow> p AND c = 0 \<Longrightarrow>
      int (popcount LIMIT) = N \<Longrightarrow> consistent s \<Longrightarrow>
      consistent (symmetricSolve_while N LIMIT p c l r s)
      \<and> fault (symmetricSolve_while N LIMIT p c l r s) = fault s"
proof (induction N LIMIT c l r s and N LIMIT p c l r s
    rule: symmetricSolve_symmetricSolve_while.induct)
  case (1 N LIMIT c l r s)
  have o: "consistent (observe c s)"
    using "1.prems" by (simp add: consistent_def)
  show ?case
  proof (cases "c = LIMIT")
    case True
    then show ?thesis using o "1.prems"
      by (auto simp add: symmetricSolve_leaf consistent_def)
  next
    case False
    have d: "(NOT (c OR l OR r) AND LIMIT) AND c = 0"
      by (rule possible_disjoint)
    show ?thesis using "1.IH" [OF False _ d "1.prems"(2) o] "1.prems"(1) False
      by (simp add: symmetricSolve_inner)
  qed
next
  case (2 N LIMIT p c l r s)
  show ?case
  proof (cases "p = 0")
    case True
    then show ?thesis using "2.prems" by (simp add: symmetricSolve_while_done)
  next
    case False
    define b where "b = p AND - p"
    define s1 where "s1 = push_back (int (ctz b) + 1) s"
    define s2 where "s2 = symmetricSolve N LIMIT (c OR b) (push_bit 1 (l OR b))
      (drop_bit 1 (r OR b)) s1"
    define s3 where "s3 = observe c (pop_back s2)"
    have e: "symmetricSolve_while N LIMIT p c l r s = symmetricSolve_while N LIMIT (p - b) c l r s3"
      unfolding s3_def s2_def s1_def b_def by (rule symmetricSolve_while_step [OF False])
    note ih1 = "2.IH"(1) [OF False b_def, folded s1_def, folded s2_def]
    note ih2 = "2.IH"(2) [OF False b_def, folded s1_def, folded s2_def, folded s3_def]
    have l1: "length (path s1) = popcount (c OR b)"
      using lowbit_fresh [OF False "2.prems"(2)] "2.prems"(1) by (simp add: s1_def b_def)
    have c1: "consistent s1" using "2.prems"(4) by (simp add: s1_def consistent_def)
    have r2: "consistent s2" "fault s2 = fault s1"
      using ih1 [OF l1 "2.prems"(3) c1] by simp_all
    have p2: "path s2 = path s @ [int (ctz b) + 1]"
      by (simp add: s2_def s1_def symmetricSolve_path)
    have p3: "path s3 = path s" "fault s3 = fault s"
      using r2(2) by (simp_all add: s3_def p2 s1_def)
    have c3: "consistent s3"
      using r2(1) "2.prems"(1) by (simp add: s3_def consistent_def p2)
    have d3: "(p - b) AND c = 0"
      unfolding b_def by (rule descend_sub(2) [OF False "2.prems"(2)])
    show ?thesis unfolding e
      using ih2 [OF _ d3 "2.prems"(3) c3] p3 "2.prems"(1) by simp
  qed
qed

section \<open>The invariant of the search\<close>

lemma ex_snoc:
  "(\<exists>i<length (p @ [x]). P i ((p @ [x]) ! i)) \<longleftrightarrow> (\<exists>i<length p. P i (p ! i)) \<or> P (length p) x"
proof
  assume "\<exists>i<length (p @ [x]). P i ((p @ [x]) ! i)"
  then obtain i where i: "i < length (p @ [x])" "P i ((p @ [x]) ! i)" by blast
  show "(\<exists>i<length p. P i (p ! i)) \<or> P (length p) x"
  proof (cases "i < length p")
    case True
    then have "P i (p ! i)" using i(2) by (simp add: nth_append)
    with True show ?thesis by blast
  next
    case False
    then have "i = length p" using i(1) by simp
    then show ?thesis using i(2) by simp
  qed
next
  assume "(\<exists>i<length p. P i (p ! i)) \<or> P (length p) x"
  then show "\<exists>i<length (p @ [x]). P i ((p @ [x]) ! i)"
  proof
    assume "\<exists>i<length p. P i (p ! i)"
    then obtain i where "i < length p" "P i (p ! i)" by blast
    then have "i < length (p @ [x]) \<and> P i ((p @ [x]) ! i)" by (simp add: nth_append)
    then show ?thesis by blast
  next
    assume "P (length p) x"
    then have "length p < length (p @ [x]) \<and> P (length p) ((p @ [x]) ! length p)" by simp
    then show ?thesis by blast
  qed
qed

lemma nonattacking_snoc:
  assumes "nonattacking p"
    and "\<forall>i<length p. p ! i \<noteq> x \<and> \<bar>p ! i - x\<bar> \<noteq> int (length p) - int i"
  shows "nonattacking (p @ [x])"
  unfolding nonattacking_def
proof (intro allI impI)
  fix i j
  assume i: "i < length (p @ [x])" and j: "j < length (p @ [x])" and ne: "i \<noteq> j"
  consider "i < length p" "j < length p" | "i < length p" "j = length p"
    | "i = length p" "j < length p"
    using i j ne by (cases "i = length p"; cases "j = length p") auto
  then show "(p @ [x]) ! i \<noteq> (p @ [x]) ! j
      \<and> \<bar>(p @ [x]) ! i - (p @ [x]) ! j\<bar> \<noteq> \<bar>int i - int j\<bar>"
  proof cases
    case 1
    then show ?thesis using assms(1) ne by (simp add: nonattacking_def nth_append)
  next
    case 2
    then show ?thesis using assms(2) by (auto simp add: nth_append)
  next
    case 3
    then show ?thesis using assms(2) [rule_format, of j] by (auto simp add: nth_append)
  qed
qed

lemma placed_root: "0 \<le> N \<Longrightarrow> N < 64 \<Longrightarrow> placed N 0 0 0 []"
  by (simp add: placed_def nonattacking_def)

lemma bit_shl1: "j < 64 \<Longrightarrow> bit (push_bit 1 w :: mask) j \<longleftrightarrow> (\<exists>m. j = Suc m \<and> bit w m)"
  unfolding bit_push_bit_iff by (cases j) auto

lemma bit_shr1: "bit (drop_bit 1 w :: mask) j \<longleftrightarrow> bit w (Suc j)"
  unfolding bit_drop_bit_eq by simp

lemma bit_or_exp: "k < 64 \<Longrightarrow> bit (w OR 2 ^ k :: mask) j \<longleftrightarrow> bit w j \<or> j = k"
  by (auto simp add: bit_or_iff bit_exp_iff)

lemma placed_extend:
  assumes pl: "placed N c l r p"
    and k: "int k < N" and fc: "\<not> bit c k" and fl: "\<not> bit l k" and fr: "\<not> bit r k"
  shows "placed N (c OR 2 ^ k) (push_bit 1 (l OR 2 ^ k)) (drop_bit 1 (r OR 2 ^ k))
           (p @ [int k + 1])"
proof -
  from pl have N: "0 \<le> N" "N < 64" and rng: "\<forall>x\<in>set p. 1 \<le> x \<and> x \<le> N"
    and na: "nonattacking p"
    and cc: "\<And>j. j < 64 \<Longrightarrow> bit c j \<longleftrightarrow> (\<exists>i<length p. p ! i = int j + 1)"
    and ll: "\<And>j. j < 64 \<Longrightarrow> bit l j \<longleftrightarrow> (\<exists>i<length p. int j = p ! i - 1 + (int (length p) - int i))"
    and rr: "\<And>j. j < 64 \<Longrightarrow> bit r j \<longleftrightarrow> (\<exists>i<length p. int j + (int (length p) - int i) = p ! i - 1)"
    by (simp_all add: placed_def)
  have k64: "k < 64" using k N by simp
  have pos: "\<And>i. i < length p \<Longrightarrow> 1 \<le> p ! i \<and> p ! i \<le> N" using rng by simp
  have a: "\<forall>x\<in>set (p @ [int k + 1]). 1 \<le> x \<and> x \<le> N" using rng k by auto
  have b: "nonattacking (p @ [int k + 1])"
  proof (rule nonattacking_snoc [OF na], intro allI impI)
    fix i assume i: "i < length p"
    have "p ! i \<noteq> int k + 1" using cc [OF k64] fc i by blast
    moreover have "int k \<noteq> p ! i - 1 + (int (length p) - int i)"
      using ll [OF k64] fl i by blast
    moreover have "int k + (int (length p) - int i) \<noteq> p ! i - 1"
      using rr [OF k64] fr i by blast
    ultimately show "p ! i \<noteq> int k + 1 \<and> \<bar>p ! i - (int k + 1)\<bar> \<noteq> int (length p) - int i"
      by linarith
  qed
  have c': "bit (c OR 2 ^ k) j \<longleftrightarrow>
      (\<exists>i<length (p @ [int k + 1]). (p @ [int k + 1]) ! i = int j + 1)" if j: "j < 64" for j
  proof -
    have "(\<exists>i<length (p @ [int k + 1]). (p @ [int k + 1]) ! i = int j + 1)
        \<longleftrightarrow> (\<exists>i<length p. p ! i = int j + 1) \<or> int k + 1 = int j + 1"
      by (rule ex_snoc [of p "int k + 1" "\<lambda>i y. y = int j + 1"])
    then show ?thesis using cc [OF j] k64 by (auto simp add: bit_or_exp)
  qed
  have l': "bit (push_bit 1 (l OR 2 ^ k)) j \<longleftrightarrow>
      (\<exists>i<length (p @ [int k + 1]).
         int j = (p @ [int k + 1]) ! i - 1 + (int (length (p @ [int k + 1])) - int i))"
    if j: "j < 64" for j
  proof -
    have "(\<exists>i<length (p @ [int k + 1]).
         int j = (p @ [int k + 1]) ! i - 1 + (int (length (p @ [int k + 1])) - int i))
      \<longleftrightarrow> (\<exists>i<length p. int j = p ! i - 1 + (int (length (p @ [int k + 1])) - int i))
        \<or> int j = int k + 1 - 1 + (int (length (p @ [int k + 1])) - int (length p))"
      by (rule ex_snoc [of p "int k + 1"
            "\<lambda>i y. int j = y - 1 + (int (length (p @ [int k + 1])) - int i)"])
    also have "\<dots> \<longleftrightarrow> (\<exists>i<length p. int j = p ! i + (int (length p) - int i)) \<or> j = Suc k"
      by (auto simp add: algebra_simps)
    also have "\<dots> \<longleftrightarrow> (\<exists>m. j = Suc m \<and> (bit l m \<or> m = k))"
    proof
      assume "(\<exists>i<length p. int j = p ! i + (int (length p) - int i)) \<or> j = Suc k"
      then show "\<exists>m. j = Suc m \<and> (bit l m \<or> m = k)"
      proof
        assume "\<exists>i<length p. int j = p ! i + (int (length p) - int i)"
        then obtain i where i: "i < length p" "int j = p ! i + (int (length p) - int i)"
          by blast
        have "1 \<le> p ! i" using pos i(1) by simp
        then have "0 < j" using i by linarith
        then obtain m where m: "j = Suc m" by (cases j) auto
        then have "int m = p ! i - 1 + (int (length p) - int i)" using i(2) by simp
        moreover have "m < 64" using m j by simp
        ultimately have "bit l m" using ll i(1) by blast
        with m show ?thesis by blast
      next
        assume "j = Suc k"
        then show ?thesis by blast
      qed
    next
      assume "\<exists>m. j = Suc m \<and> (bit l m \<or> m = k)"
      then obtain m where m: "j = Suc m" "bit l m \<or> m = k" by blast
      from m(2) show "(\<exists>i<length p. int j = p ! i + (int (length p) - int i)) \<or> j = Suc k"
      proof
        assume "bit l m"
        moreover have "m < 64" using m(1) j by simp
        ultimately obtain i where "i < length p" "int m = p ! i - 1 + (int (length p) - int i)"
          using ll by blast
        then have "i < length p \<and> int j = p ! i + (int (length p) - int i)" using m(1) by simp
        then show ?thesis by blast
      next
        assume "m = k"
        then show ?thesis using m(1) by simp
      qed
    qed
    also have "\<dots> \<longleftrightarrow> bit (push_bit 1 (l OR 2 ^ k)) j"
      using k64 by (simp only: bit_shl1 [OF j] bit_or_exp)
    finally show ?thesis by (rule sym)
  qed
  have r': "bit (drop_bit 1 (r OR 2 ^ k)) j \<longleftrightarrow>
      (\<exists>i<length (p @ [int k + 1]).
         int j + (int (length (p @ [int k + 1])) - int i) = (p @ [int k + 1]) ! i - 1)"
    if j: "j < 64" for j
  proof -
    have "(\<exists>i<length (p @ [int k + 1]).
         int j + (int (length (p @ [int k + 1])) - int i) = (p @ [int k + 1]) ! i - 1)
      \<longleftrightarrow> (\<exists>i<length p. int j + (int (length (p @ [int k + 1])) - int i) = p ! i - 1)
        \<or> int j + (int (length (p @ [int k + 1])) - int (length p)) = int k + 1 - 1"
      by (rule ex_snoc [of p "int k + 1"
            "\<lambda>i y. int j + (int (length (p @ [int k + 1])) - int i) = y - 1"])
    also have "\<dots> \<longleftrightarrow> (\<exists>i<length p. int (Suc j) + (int (length p) - int i) = p ! i - 1)
        \<or> Suc j = k"
      by (auto simp add: algebra_simps)
    also have "\<dots> \<longleftrightarrow> bit r (Suc j) \<or> Suc j = k"
    proof (cases "Suc j < 64")
      case True
      then show ?thesis using rr by simp
    next
      case False
      have "\<not> bit r (Suc j)" using False by (auto dest: bit_imp_le_length)
      moreover have "\<not> (\<exists>i<length p. int (Suc j) + (int (length p) - int i) = p ! i - 1)"
      proof
        assume "\<exists>i<length p. int (Suc j) + (int (length p) - int i) = p ! i - 1"
        then obtain i where i: "i < length p"
          "int (Suc j) + (int (length p) - int i) = p ! i - 1" by blast
        have "p ! i \<le> N" using pos i(1) by simp
        then show False using i N False by linarith
      qed
      ultimately show ?thesis by blast
    qed
    also have "\<dots> \<longleftrightarrow> bit (drop_bit 1 (r OR 2 ^ k)) j"
      using k64 by (simp only: bit_shr1 bit_or_exp)
    finally show ?thesis by (rule sym)
  qed
  show ?thesis unfolding placed_def
    by (intro conjI allI impI N a b c' l' r') assumption+
qed

lemma placed_full:
  assumes pl: "placed N c l r p" and full: "c = 2 ^ nat N - 1"
  shows "int (length p) = N" and "valid N p"
proof -
  from pl have N: "0 \<le> N" "N < 64" and rng: "\<forall>x\<in>set p. 1 \<le> x \<and> x \<le> N"
    and na: "nonattacking p"
    and cc: "\<And>j. j < 64 \<Longrightarrow> bit c j \<longleftrightarrow> (\<exists>i<length p. p ! i = int j + 1)"
    by (simp_all add: placed_def)
  have d: "distinct p"
    using na by (simp add: distinct_conv_nth nonattacking_def)
  have "set p = {1..N}"
  proof
    show "set p \<subseteq> {1..N}" using rng by auto
    show "{1..N} \<subseteq> set p"
    proof
      fix x assume "x \<in> {1..N}"
      then have x: "1 \<le> x" "x \<le> N" by simp_all
      define k where "k = nat (x - 1)"
      have k: "k < nat N" "int k + 1 = x" using x by (simp_all add: k_def)
      have n64: "nat N < 64" using N by simp
      then have "bit c k" using k(1) by (simp add: full bit_limit)
      moreover have "k < 64" using k(1) n64 by simp
      ultimately obtain i where "i < length p" "p ! i = int k + 1" using cc by blast
      then show "x \<in> set p" using k(2) by (metis nth_mem)
    qed
  qed
  then have "card (set p) = nat N" by simp
  then have "length p = nat N" using d by (simp add: distinct_card)
  then show len: "int (length p) = N" using N by simp
  show "valid N p" unfolding valid_def using len rng na by simp
qed

lemma free_column:
  fixes q c l r LIMIT :: mask
  assumes "q \<noteq> 0" "q AND (c OR l OR r OR NOT LIMIT) = 0"
  shows "\<not> bit c (ctz q)" "\<not> bit l (ctz q)" "\<not> bit r (ctz q)" "bit LIMIT (ctz q)"
proof -
  have k: "ctz q < 64" "bit q (ctz q)" using ctz_bit [OF assms(1)] by simp_all
  have "\<not> bit (q AND (c OR l OR r OR NOT LIMIT)) (ctz q)" using assms(2) by simp
  then have "\<not> bit (c OR l OR r OR NOT LIMIT) (ctz q)" using k(2) by (simp add: bit_and_iff)
  then show "\<not> bit c (ctz q)" "\<not> bit l (ctz q)" "\<not> bit r (ctz q)" "bit LIMIT (ctz q)"
    using k(1) by (simp_all add: bit_or_iff bit_not_iff)
qed

lemma possible_free: "(NOT (c OR l OR r) AND LIMIT) AND (c OR l OR r OR NOT LIMIT) = 0"
  for c :: mask
  by (rule bit_word_eqI) (auto simp add: bit_and_iff bit_not_iff bit_or_iff)

lemma lowbit_exp: "q \<noteq> 0 \<Longrightarrow> q AND - q = 2 ^ ctz q"
  by (simp add: lowbit)

lemma solutions_valid:
  shows "placed N c l r p \<Longrightarrow> LIMIT = 2 ^ nat N - 1 \<Longrightarrow>
      \<forall>S\<in>set (solutions N LIMIT c l r p). valid N S \<and> take (length p) S = p"
    and "placed N c l r p \<Longrightarrow> LIMIT = 2 ^ nat N - 1 \<Longrightarrow>
      q AND (c OR l OR r OR NOT LIMIT) = 0 \<Longrightarrow>
      \<forall>S\<in>set (solutions_while N LIMIT q c l r p). valid N S \<and> take (length p) S = p"
proof (induction N LIMIT c l r p and N LIMIT q c l r p rule: solutions_solutions_while.induct)
  case (1 N LIMIT c l r p)
  show ?case
  proof (cases "c = LIMIT")
    case True
    then have "c = 2 ^ nat N - 1" using "1.prems"(2) by simp
    from placed_full [OF "1.prems"(1) this] True show ?thesis
      by (simp add: solutions_leaf)
  next
    case False
    show ?thesis
      using "1.IH" [OF False "1.prems" possible_free] False by (simp add: solutions_inner)
  qed
next
  case (2 N LIMIT q c l r p)
  show ?case
  proof (cases "q = 0")
    case True
    then show ?thesis by (simp add: solutions_while_done)
  next
    case False
    define b where "b = q AND - q"
    define k where "k = ctz q"
    have b: "b = 2 ^ k" unfolding b_def k_def by (rule lowbit_exp [OF False])
    have ck: "ctz b = k" unfolding b_def k_def by (rule ctz_lowbit [OF False])
    note fr = free_column [OF False "2.prems"(3), folded k_def]
    have "0 \<le> N" "N < 64" using "2.prems"(1) by (simp_all add: placed_def)
    then have "nat N < 64" by simp
    then have "k < nat N" using fr(4) by (simp add: "2.prems"(2) bit_limit)
    then have kN: "int k < N" by simp
    have pl: "placed N (c OR b) (push_bit 1 (l OR b)) (drop_bit 1 (r OR b))
        (p @ [int (ctz b) + 1])"
      unfolding b ck [unfolded b] by (rule placed_extend [OF "2.prems"(1) kN fr(1-3)])
    have d: "(q - b) AND (c OR l OR r OR NOT LIMIT) = 0"
      unfolding b_def by (rule descend_sub(2) [OF False "2.prems"(3)])
    note ih1 = "2.IH"(1) [OF False b_def pl "2.prems"(2)]
    note ih2 = "2.IH"(2) [OF False b_def "2.prems"(1,2) d]
    have "valid N S \<and> take (length p) S = p"
      if "S \<in> set (solutions N LIMIT (c OR b) (push_bit 1 (l OR b)) (drop_bit 1 (r OR b))
            (p @ [int (ctz b) + 1]))" for S
    proof -
      from ih1 that have v: "valid N S"
        and t: "take (length (p @ [int (ctz b) + 1])) S = p @ [int (ctz b) + 1]" by blast+
      have "take (length p) (take (length (p @ [int (ctz b) + 1])) S) = take (length p) S"
        by (simp add: min_def)
      then have "take (length p) S = p" unfolding t by simp
      with v show ?thesis by simp
    qed
    then show ?thesis using ih2
      by (auto simp add: solutions_while_step [OF False] b_def)
  qed
qed

lemma valid_mirror:
  assumes "valid N S"
  shows "valid N (map (\<lambda>x. (N + 1) - x) S)"
proof -
  from assms have len: "int (length S) = N" and rng: "\<forall>x\<in>set S. 1 \<le> x \<and> x \<le> N"
    and na: "nonattacking S" by (simp_all add: valid_def)
  have "nonattacking (map (\<lambda>x. (N + 1) - x) S)"
    unfolding nonattacking_def
  proof (intro allI impI)
    fix i j
    assume "i < length (map (\<lambda>x. (N + 1) - x) S)" "j < length (map (\<lambda>x. (N + 1) - x) S)"
      and ne: "i \<noteq> j"
    then have ij: "i < length S" "j < length S" by simp_all
    with na ne have h: "S ! i \<noteq> S ! j" "\<bar>S ! i - S ! j\<bar> \<noteq> \<bar>int i - int j\<bar>"
      by (simp_all add: nonattacking_def)
    have e: "\<bar>(N + 1 - S ! i) - (N + 1 - S ! j)\<bar> = \<bar>S ! i - S ! j\<bar>" by linarith
    have m: "map (\<lambda>x. (N + 1) - x) S ! i = N + 1 - S ! i"
      "map (\<lambda>x. (N + 1) - x) S ! j = N + 1 - S ! j" using ij by simp_all
    have "N + 1 - S ! i \<noteq> N + 1 - S ! j" using h(1) by simp
    moreover have "\<bar>(N + 1 - S ! i) - (N + 1 - S ! j)\<bar> \<noteq> \<bar>int i - int j\<bar>"
      unfolding e by (rule h(2))
    ultimately show "map (\<lambda>x. (N + 1) - x) S ! i \<noteq> map (\<lambda>x. (N + 1) - x) S ! j
        \<and> \<bar>map (\<lambda>x. (N + 1) - x) S ! i - map (\<lambda>x. (N + 1) - x) S ! j\<bar> \<noteq> \<bar>int i - int j\<bar>"
      unfolding m by (rule conjI)
  qed
  moreover have "\<forall>x\<in>set (map (\<lambda>x. (N + 1) - x) S). 1 \<le> x \<and> x \<le> N"
    using rng by auto
  ultimately show ?thesis using len by (simp add: valid_def)
qed

section \<open>The search finds every solution\<close>




section \<open>The records of a whole run\<close>

lemma cdiv_nonneg: "0 \<le> N \<Longrightarrow> cdiv N 2 = N div 2"
  by (cases "N = 0") (simp_all add: cdiv_def)

lemma cmod_nonneg: "0 \<le> N \<Longrightarrow> cmod N 2 = N mod 2"
  by (simp add: cmod_def cdiv_nonneg minus_mult_div_eq_mod)

lemma popcount_exp: "k < 64 \<Longrightarrow> popcount (2 ^ k) = 1"
  using popcount_or_bit [of k 0] by (simp add: popcount_zero)

lemma popcount_full: "0 \<le> N \<Longrightarrow> N < 64 \<Longrightarrow> int (popcount (2 ^ nat N - 1)) = N"
  using popcount_limit [of "nat N"] by simp

lemma placed_first:
  assumes "0 \<le> N" "N < 64" "int col < N"
  shows "placed N (2 ^ col) (push_bit 1 (2 ^ col)) (drop_bit 1 (2 ^ col)) [int col + 1]"
  using placed_extend [OF placed_root [OF assms(1,2)] assms(3)]
  by (simp only: or.left_neutral append_Nil bit_0_eq bot_apply bot_bool_def simp_thms)

lemma firstRowSolutions_valid:
  assumes "0 \<le> N" "N < 64" "int col < N"
  shows "\<forall>S\<in>set (firstRowSolutions N col). valid N S \<and> take 1 S = [int col + 1]"
  using solutions_valid(1) [OF placed_first [OF assms] refl]
  by (simp add: firstRowSolutions_def)

lemma withMirrors_concat:
  "withMirrors N (concat (map f xs)) = concat (map (\<lambda>x. withMirrors N (f x)) xs)"
  by (induction xs) (simp_all add: withMirrors_append)

lemma set_withMirrors:
  "set (withMirrors N R) = set R \<union> (\<lambda>S. map (\<lambda>x. (N + 1) - x) S) ` set R"
  by (induction R) auto

lemma firstRow_alt:
  "firstRow N LIMIT col s =
     pop_back (symmetricSolve N LIMIT (2 ^ col) (push_bit 1 (2 ^ col)) (drop_bit 1 (2 ^ col))
       (push_back (int col + 1) s))"
  by (simp only: firstRow_def Let_def push_bit_of_1)

lemma firstRow_effect:
  assumes s: "sound s" and N: "0 \<le> N" "N < 64" and col: "int col < N"
  shows "sound (firstRow N (2 ^ nat N - 1) col s)"
    and "sink (firstRow N (2 ^ nat N - 1) col s) =
      sink s @ withMirrors N (firstRowSolutions N col)"
    and "stopSearch (firstRow N (2 ^ nat N - 1) col s) = stopSearch s"
proof -
  define s1 where "s1 = push_back (int col + 1) s"
  define s2 where "s2 = symmetricSolve N (2 ^ nat N - 1) (2 ^ col) (push_bit 1 (2 ^ col))
    (drop_bit 1 (2 ^ col)) s1"
  have e: "firstRow N (2 ^ nat N - 1) col s = pop_back s2"
    unfolding s2_def s1_def by (rule firstRow_alt)
  have c64: "col < 64" using col N by simp
  have p1: "path s1 = [int col + 1]" "\<not> fault s1" "consistent s1" "balance s1 = 0"
    "sink s1 = sink s" "stopSearch s1 = stopSearch s"
    using s by (simp_all add: s1_def sound_def consistent_def balance_def)
  have l1: "length (path s1) = popcount (2 ^ col)" using c64 by (simp add: p1 popcount_exp)
  from symmetricSolve_consistent(1) [OF l1 popcount_full [OF N] p1(3)]
  have c2: "consistent s2" "\<not> fault s2" unfolding s2_def using p1(2) by simp_all
  have p2: "path s2 = [int col + 1]" by (simp add: s2_def symmetricSolve_path p1)
  have b2: "balance s2 = 0" using symmetricSolve_balance(1) [of s1] c2(2) p1(4)
    by (simp add: s2_def)
  have k2: "sink s2 = sink s @ withMirrors N (firstRowSolutions N col)"
    by (simp add: s2_def symmetricSolve_sink p1 firstRowSolutions_def)
  show "sound (firstRow N (2 ^ nat N - 1) col s)"
    unfolding e using c2 p2 b2 by (simp add: sound_def consistent_def balance_def)
  show "sink (firstRow N (2 ^ nat N - 1) col s) =
      sink s @ withMirrors N (firstRowSolutions N col)"
    unfolding e using k2 by simp
  show "stopSearch (firstRow N (2 ^ nat N - 1) col s) = stopSearch s"
    unfolding e by (simp add: s2_def symmetricSolve_flag p1)
qed

lemma firstRows_effect:
  assumes N: "0 \<le> N" "N < 64"
  shows "sound s \<Longrightarrow> \<forall>col\<in>set cols. int col < N \<Longrightarrow>
     sound (fold (firstRow N (2 ^ nat N - 1)) cols s)
     \<and> sink (fold (firstRow N (2 ^ nat N - 1)) cols s) =
         sink s @ withMirrors N (concat (map (firstRowSolutions N) cols))
     \<and> stopSearch (fold (firstRow N (2 ^ nat N - 1)) cols s) = stopSearch s"
proof (induction cols arbitrary: s)
  case Nil
  then show ?case by simp
next
  case (Cons col cols)
  from Cons.prems have col: "int col < N" and rest: "\<forall>col\<in>set cols. int col < N" by simp_all
  note f = firstRow_effect [OF Cons.prems(1) N col]
  from Cons.IH [OF f(1) rest] show ?case
    by (simp add: f(2,3) withMirrors_append)
qed

lemma initial_path: "initial\<lparr>path := []\<rparr> = initial"
  by (simp add: initial_def)

lemma initial_sound: "sound initial"
  by (simp add: sound_def initial_def consistent_def balance_def)

lemma not_plainOnly_small: "\<not> plainOnly v N \<Longrightarrow> \<not> (v = Solver_cpp \<and> FIND_ALL_LIMIT \<le> N)"
  by (auto simp add: plainOnly_def)

lemma solve_sound:
  assumes N: "0 \<le> N" "N < 64"
    and s: "path s = p" "\<not> fault s" "consistent s" "balance s = 0"
    and p: "length p = popcount c"
  shows "path (solve v N (2 ^ nat N - 1) c l r s) = p"
    and "\<not> fault (solve v N (2 ^ nat N - 1) c l r s)"
    and "consistent (solve v N (2 ^ nat N - 1) c l r s)"
    and "balance (solve v N (2 ^ nat N - 1) c l r s) = 0"
proof -
  have l: "length (path s) = popcount c" using s(1) p by simp
  note c = solve_consistent(1) [OF l popcount_full [OF N] s(3), of v l r]
  show "path (solve v N (2 ^ nat N - 1) c l r s) = p" using s(1) by (simp add: solve_path)
  show f: "\<not> fault (solve v N (2 ^ nat N - 1) c l r s)" using c s(2) by simp
  show "consistent (solve v N (2 ^ nat N - 1) c l r s)" using c by simp
  show "balance (solve v N (2 ^ nat N - 1) c l r s) = 0"
    using solve_balance(1) [of s v N "2 ^ nat N - 1" c l r] f s(4) by simp
qed

lemma solveWithSymmetry_plain:
  assumes N: "0 \<le> N" "N < 64" and pl: "plainOnly v N"
  shows "sound (solveWithSymmetry v N (2 ^ nat N - 1) initial)"
    and "\<exists>k. sink (solveWithSymmetry v N (2 ^ nat N - 1) initial) =
           take k (solutions N (2 ^ nat N - 1) 0 0 0 [])"
    and "\<not> (v = Solver_cpp \<and> FIND_ALL_LIMIT \<le> N) \<Longrightarrow>
           sink (solveWithSymmetry v N (2 ^ nat N - 1) initial) =
             solutions N (2 ^ nat N - 1) 0 0 0 []"
proof -
  have e: "solveWithSymmetry v N (2 ^ nat N - 1) initial =
      solve v N (2 ^ nat N - 1) 0 0 0 initial"
    using pl by (simp add: solveWithSymmetry_def initial_path)
  have i: "path initial = []" "\<not> fault initial" "consistent initial" "balance initial = 0"
    "sink initial = []" "stopSearch initial = False"
    by (simp_all add: initial_def consistent_def balance_def)
  have z: "length ([] :: int list) = popcount 0" by (simp add: popcount_zero)
  show "sound (solveWithSymmetry v N (2 ^ nat N - 1) initial)"
    unfolding e sound_def using solve_sound [OF N i(1-4) z, of v 0 0] by simp
  note k = solve_sink(1) [of v N "2 ^ nat N - 1" 0 0 0 initial, unfolded i, simplified]
  show "\<exists>k. sink (solveWithSymmetry v N (2 ^ nat N - 1) initial) =
           take k (solutions N (2 ^ nat N - 1) 0 0 0 [])"
    unfolding e using k by blast
  assume "\<not> (v = Solver_cpp \<and> FIND_ALL_LIMIT \<le> N)"
  then have "stopSearch (solve v N (2 ^ nat N - 1) 0 0 0 initial) = False"
    by (simp add: solve_keeps_flag i)
  then show "sink (solveWithSymmetry v N (2 ^ nat N - 1) initial) =
             solutions N (2 ^ nat N - 1) 0 0 0 []"
    unfolding e using k by simp
qed

lemma solveWithSymmetry_mirrored:
  assumes N: "0 \<le> N" "N < 64" and pl: "\<not> plainOnly v N"
  shows "sound (solveWithSymmetry v N (2 ^ nat N - 1) initial)"
    and "sink (solveWithSymmetry v N (2 ^ nat N - 1) initial) =
           withMirrors N (halfSolutions N) @ middleSolutions N"
proof -
  define L :: mask where "L = 2 ^ nat N - 1"
  define h where "h = nat (N div 2)"
  define s1 where "s1 = fold (firstRow N L) [0..<h] initial"
  have hN: "\<forall>col\<in>set [0..<h]. int col < N" using N by (auto simp add: h_def)
  from firstRows_effect [OF N initial_sound hN]
  have f: "sound s1" "sink s1 = withMirrors N (halfSolutions N)" "stopSearch s1 = False"
    by (simp_all add: s1_def L_def halfSolutions_def h_def initial_def)
  have e: "solveWithSymmetry v N L initial =
      (if N mod 2 = 1
       then pop_back (solve v N L (2 ^ h) (push_bit 1 (2 ^ h)) (drop_bit 1 (2 ^ h))
              (push_back (N div 2 + 1) s1))
       else s1)"
    using pl N(1)
    by (simp only: solveWithSymmetry_def if_False Let_def initial_path cdiv_nonneg cmod_nonneg
        push_bit_of_1 s1_def h_def)
  have r: "sound (solveWithSymmetry v N L initial)
      \<and> sink (solveWithSymmetry v N L initial) = withMirrors N (halfSolutions N) @ middleSolutions N"
  proof (cases "N mod 2 = 1")
    case False
    then show ?thesis using f by (simp add: e middleSolutions_def)
  next
    case True
    define s2 where "s2 = push_back (N div 2 + 1) s1"
    define s3 where "s3 = solve v N L (2 ^ h) (push_bit 1 (2 ^ h)) (drop_bit 1 (2 ^ h)) s2"
    have h1: "int h + 1 = N div 2 + 1" "h < 64" "int h < N"
      using N True by (simp_all add: h_def) presburger+
    have p2: "path s2 = [int h + 1]" "\<not> fault s2" "consistent s2" "balance s2 = 0"
      "sink s2 = sink s1" "stopSearch s2 = False"
      using f by (simp_all add: s2_def sound_def consistent_def balance_def h1)
    have l2: "length [int h + 1] = popcount (2 ^ h)" using h1(2) by (simp add: popcount_exp)
    note s = solve_sound [OF N p2(1-4) l2, of v "push_bit 1 (2 ^ h)" "drop_bit 1 (2 ^ h)",
        folded L_def, folded s3_def]
    have "stopSearch s3 = False"
      using not_plainOnly_small [OF pl] by (simp add: s3_def solve_keeps_flag p2)
    then have "sink s3 = sink s2 @ solutions N L (2 ^ h) (push_bit 1 (2 ^ h))
        (drop_bit 1 (2 ^ h)) (path s2)"
      using solve_sink(1) [of v N L "2 ^ h" "push_bit 1 (2 ^ h)" "drop_bit 1 (2 ^ h)" s2]
      by (simp add: s3_def)
    then have k3: "sink s3 = withMirrors N (halfSolutions N) @ middleSolutions N"
      using True by (simp add: p2 f middleSolutions_def firstRowSolutions_def L_def h_def)
    have "solveWithSymmetry v N L initial = pop_back s3"
      using True by (simp add: e s3_def s2_def)
    then show ?thesis using s k3
      by (simp add: sound_def consistent_def balance_def)
  qed
  show "sound (solveWithSymmetry v N (2 ^ nat N - 1) initial)"
    using r by (simp add: L_def)
  show "sink (solveWithSymmetry v N (2 ^ nat N - 1) initial) =
           withMirrors N (halfSolutions N) @ middleSolutions N"
    using r by (simp add: L_def)
qed

lemma halfSolutions_valid:
  assumes N: "0 \<le> N" "N < 64"
  shows "\<forall>S\<in>set (halfSolutions N). valid N S \<and> 1 \<le> hd S \<and> hd S \<le> N div 2"
proof
  fix S assume "S \<in> set (halfSolutions N)"
  then obtain col where col: "col < nat (N div 2)" "S \<in> set (firstRowSolutions N col)"
    by (auto simp add: halfSolutions_def)
  then have c: "int col < N" using N by linarith
  from firstRowSolutions_valid [OF N c] col(2)
  have v: "valid N S" and t: "take 1 S = [int col + 1]" by blast+
  from t have "hd S = int col + 1" by (cases S) simp_all
  then show "valid N S \<and> 1 \<le> hd S \<and> hd S \<le> N div 2" using v col(1) by simp
qed

lemma middleSolutions_valid:
  assumes N: "0 \<le> N" "N < 64"
  shows "\<forall>S\<in>set (middleSolutions N). valid N S"
proof (cases "N mod 2 = 1")
  case True
  then have "int (nat (N div 2)) < N" using N by simp presburger
  from firstRowSolutions_valid [OF N this] True show ?thesis
    by (simp add: middleSolutions_def)
next
  case False
  then show ?thesis by (simp add: middleSolutions_def)
qed

lemma solveWithSymmetry_valid:
  assumes N: "0 \<le> N" "N < 64"
  shows "\<forall>S\<in>set (sink (solveWithSymmetry v N (2 ^ nat N - 1) initial)). valid N S"
proof (cases "plainOnly v N")
  case True
  from solveWithSymmetry_plain(2) [OF N True] obtain k where
    k: "sink (solveWithSymmetry v N (2 ^ nat N - 1) initial) =
           take k (solutions N (2 ^ nat N - 1) 0 0 0 [])" by blast
  show ?thesis unfolding k
    using solutions_valid(1) [OF placed_root [OF N] refl] by (auto dest: in_set_takeD)
next
  case False
  show ?thesis unfolding solveWithSymmetry_mirrored(2) [OF N False]
    using halfSolutions_valid [OF N] middleSolutions_valid [OF N]
    by (auto simp add: set_withMirrors valid_mirror)
qed

section \<open>Running the program on small boards\<close>

lemma ctz_exp: "k < 64 \<Longrightarrow> ctz (2 ^ k) = k"
proof -
  assume k: "k < 64"
  then have nz: "(2 ^ k :: mask) \<noteq> 0" by simp
  from ctz_bit [OF nz] show ?thesis by (simp add: bit_exp_iff)
qed

lemma ctz_numerals:
  "ctz 1 = 0" "ctz 2 = 1" "ctz 4 = 2" "ctz 8 = 3" "ctz 16 = 4" "ctz 32 = 5" "ctz 64 = 6"
  "ctz 128 = 7"
  using ctz_exp [of 0] ctz_exp [of 1] ctz_exp [of 2] ctz_exp [of 3] ctz_exp [of 4]
    ctz_exp [of 5] ctz_exp [of 6] ctz_exp [of 7]
  by simp_all

lemmas eval_simps = solutions.simps solutions_while.simps Let_def ctz_numerals

lemma main_runs:
  assumes "\<not> unsolvable v N" "0 \<le> N" "N < 64"
  shows "main v True (Size N) =
     (Summary N (int (length (sink (solveWithSymmetry v N (2 ^ nat N - 1) initial))))
        (sink (solveWithSymmetry v N (2 ^ nat N - 1) initial)),
      solveWithSymmetry v N (2 ^ nat N - 1) initial)"
proof -
  have "sound (solveWithSymmetry v N (2 ^ nat N - 1) initial)"
    using solveWithSymmetry_plain(1) [OF assms(2,3)] solveWithSymmetry_mirrored(1) [OF assms(2,3)]
    by (cases "plainOnly v N") simp_all
  then show ?thesis using assms by (simp add: main_def sound_def balance_def Let_def)
qed

lemma main_summary:
  assumes "fst (main v tmp (Size N)) = Summary M n rs"
  shows "\<not> unsolvable v N \<and> 0 \<le> N \<and> N < 64 \<and> tmp \<and> M = N
     \<and> rs = sink (solveWithSymmetry v N (2 ^ nat N - 1) initial) \<and> n = int (length rs)"
proof -
  from assms have a: "\<not> unsolvable v N" "0 \<le> N" "N < 64" "tmp"
    by (auto simp add: main_def Let_def split: if_splits)
  from assms main_runs [OF a(1-3)] a(4) show ?thesis using a by auto
qed

lemma half4: "halfSolutions 4 = [[2, 4, 1, 3]]"
  by (simp add: halfSolutions_def firstRowSolutions_def eval_simps upt_conv_Cons)

lemma run4: "fst (main v True (Size 4)) = Summary 4 2 [[2, 4, 1, 3], [3, 1, 4, 2]]"
proof -
  have u: "\<not> unsolvable v 4" "\<not> plainOnly v 4"
    by (simp_all add: unsolvable_def plainOnly_def FIND_ALL_LIMIT_def)
  have "sink (solveWithSymmetry v 4 (2 ^ nat 4 - 1) initial) = [[2, 4, 1, 3], [3, 1, 4, 2]]"
    using solveWithSymmetry_mirrored(2) [of 4 v] u(2)
    by (simp add: half4 middleSolutions_def)
  then show ?thesis using main_runs [OF u(1), simplified] by simp
qed

section \<open>The order of discovery\<close>

lemma take_snoc_nth:
  assumes "take (Suc (length p)) x = p @ [a]"
  shows "length p < length x" and "take (length p) x = p" and "x ! length p = a"
proof -
  have "length (take (Suc (length p)) x) = Suc (length p)" using assms by simp
  then show l: "length p < length x" by simp
  have "take (length p) (take (Suc (length p)) x) = take (length p) x" by (simp add: min_def)
  then show "take (length p) x = p" using assms by simp
  have "take (Suc (length p)) x ! length p = x ! length p" by simp
  then show "x ! length p = a" using assms by simp
qed

lemma earlier_by_column:
  assumes "take (Suc (length p)) x = p @ [a]" "take (Suc (length p)) y = p @ [b]" "a < b"
  shows "earlier x y"
  unfolding earlier_def
  using take_snoc_nth [OF assms(1)] take_snoc_nth [OF assms(2)] assms(3)
  by (intro exI [of _ "length p"]) simp

lemma bit_without_lowbit:
  fixes q :: mask
  assumes "q \<noteq> 0" "bit (q - (q AND - q)) j"
  shows "bit q j" and "ctz q < j"
proof -
  from assms(2) have "bit (q AND NOT (q AND - q)) j" by (simp only: sub_lowbit)
  then have "bit q j \<and> bit (NOT (q AND - q)) j" by (simp only: bit_and_iff)
  then have b: "bit q j" "\<not> bit (q AND - q) j" by (simp_all only: bit_not_iff simp_thms)
  show "bit q j" by (rule b(1))
  have "j \<noteq> ctz q" using b(2) bit_lowbit [OF assms(1), of j] by simp
  moreover have "ctz q \<le> j" using b(1) by (rule ctz_le)
  ultimately show "ctz q < j" by simp
qed

lemma solutions_ordered:
  shows "placed N c l r p \<Longrightarrow> LIMIT = 2 ^ nat N - 1 \<Longrightarrow>
      sorted_wrt earlier (solutions N LIMIT c l r p)"
    and "placed N c l r p \<Longrightarrow> LIMIT = 2 ^ nat N - 1 \<Longrightarrow>
      q AND (c OR l OR r OR NOT LIMIT) = 0 \<Longrightarrow>
      sorted_wrt earlier (solutions_while N LIMIT q c l r p)
      \<and> (\<forall>S\<in>set (solutions_while N LIMIT q c l r p).
            \<exists>j. bit q j \<and> take (Suc (length p)) S = p @ [int j + 1])"
proof (induction N LIMIT c l r p and N LIMIT q c l r p rule: solutions_solutions_while.induct)
  case (1 N LIMIT c l r p)
  show ?case
  proof (cases "c = LIMIT")
    case True
    then show ?thesis by (simp add: solutions_leaf)
  next
    case False
    show ?thesis
      using "1.IH" [OF False "1.prems" possible_free] False by (simp add: solutions_inner)
  qed
next
  case (2 N LIMIT q c l r p)
  show ?case
  proof (cases "q = 0")
    case True
    then show ?thesis by (simp add: solutions_while_done)
  next
    case False
    define b where "b = q AND - q"
    define k where "k = ctz q"
    define R1 where "R1 = solutions N LIMIT (c OR b) (push_bit 1 (l OR b))
      (drop_bit 1 (r OR b)) (p @ [int (ctz b) + 1])"
    define R2 where "R2 = solutions_while N LIMIT (q - b) c l r p"
    have b: "b = 2 ^ k" unfolding b_def k_def by (rule lowbit_exp [OF False])
    have ck: "ctz b = k" unfolding b_def k_def by (rule ctz_lowbit [OF False])
    note fr = free_column [OF False "2.prems"(3), folded k_def]
    have "0 \<le> N" "N < 64" using "2.prems"(1) by (simp_all add: placed_def)
    then have "nat N < 64" by simp
    then have "k < nat N" using fr(4) by (simp add: "2.prems"(2) bit_limit)
    then have kN: "int k < N" by simp
    have pl: "placed N (c OR b) (push_bit 1 (l OR b)) (drop_bit 1 (r OR b))
        (p @ [int (ctz b) + 1])"
      unfolding b ck [unfolded b] by (rule placed_extend [OF "2.prems"(1) kN fr(1-3)])
    have d: "(q - b) AND (c OR l OR r OR NOT LIMIT) = 0"
      unfolding b_def by (rule descend_sub(2) [OF False "2.prems"(3)])
    have bk: "bit q k" unfolding k_def using ctz_bit [OF False] by simp
    have e: "solutions_while N LIMIT q c l r p = R1 @ R2"
      unfolding R1_def R2_def b_def by (rule solutions_while_step [OF False])
    have s1: "sorted_wrt earlier R1"
      unfolding R1_def by (rule "2.IH"(1) [OF False b_def pl "2.prems"(2)])
    note ih2 = "2.IH"(2) [OF False b_def "2.prems"(1,2) d, folded R2_def]
    have h1: "take (Suc (length p)) S = p @ [int k + 1]" if "S \<in> set R1" for S
      using solutions_valid(1) [OF pl "2.prems"(2)] that by (simp add: R1_def ck)
    have h2: "\<exists>j. bit q j \<and> k < j \<and> take (Suc (length p)) S = p @ [int j + 1]"
      if "S \<in> set R2" for S
    proof -
      from ih2 that obtain j where j: "bit (q - b) j" "take (Suc (length p)) S = p @ [int j + 1]"
        by blast
      from bit_without_lowbit [OF False j(1) [unfolded b_def]] j(2) show ?thesis
        by (auto simp add: k_def)
    qed
    have cross: "earlier x y" if "x \<in> set R1" "y \<in> set R2" for x y
    proof -
      from h2 [OF that(2)] obtain j where j: "k < j" "take (Suc (length p)) y = p @ [int j + 1]"
        by blast
      show ?thesis by (rule earlier_by_column [OF h1 [OF that(1)] j(2)]) (use j(1) in simp)
    qed
    have "sorted_wrt earlier (R1 @ R2)"
      using s1 ih2 cross by (simp add: sorted_wrt_append)
    moreover have "\<forall>S\<in>set (R1 @ R2). \<exists>j. bit q j \<and> take (Suc (length p)) S = p @ [int j + 1]"
      using h1 h2 bk by auto
    ultimately show ?thesis unfolding e by simp
  qed
qed

lemma sorted_wrt_concat_map:
  assumes "\<forall>i\<in>set xs. sorted_wrt R (F i)"
    and "sorted_wrt (\<lambda>i j. \<forall>x\<in>set (F i). \<forall>y\<in>set (F j). R x y) xs"
  shows "sorted_wrt R (concat (map F xs))"
  using assms by (induction xs) (auto simp add: sorted_wrt_append)

lemma firstRowSolutions_ordered:
  assumes N: "0 \<le> N" "N < 64"
  shows "\<forall>col\<in>set cols. int col < N \<Longrightarrow> sorted_wrt (<) cols \<Longrightarrow>
    sorted_wrt earlier (concat (map (firstRowSolutions N) cols))"
proof (rule sorted_wrt_concat_map)
  assume c: "\<forall>col\<in>set cols. int col < N" and s: "sorted_wrt (<) cols"
  show "\<forall>i\<in>set cols. sorted_wrt earlier (firstRowSolutions N i)"
    using c solutions_ordered(1) [OF placed_first [OF N] refl]
    by (simp add: firstRowSolutions_def)
  have "\<forall>x\<in>set (firstRowSolutions N i). \<forall>y\<in>set (firstRowSolutions N j). earlier x y"
    if "i \<in> set cols" "j \<in> set cols" "i < j" for i j
  proof (intro ballI)
    fix x y assume "x \<in> set (firstRowSolutions N i)" "y \<in> set (firstRowSolutions N j)"
    then have "take (Suc (length ([] :: int list))) x = [] @ [int i + 1]"
      "take (Suc (length ([] :: int list))) y = [] @ [int j + 1]"
      using firstRowSolutions_valid [OF N] c that by auto
    then show "earlier x y" by (rule earlier_by_column) (use that(3) in simp)
  qed
  then show "sorted_wrt (\<lambda>i j. \<forall>x\<in>set (firstRowSolutions N i).
      \<forall>y\<in>set (firstRowSolutions N j). earlier x y) cols"
    using s by (auto intro: sorted_wrt_mono_rel [rotated])
qed

lemma search_order:
  assumes N: "0 \<le> N" "N < 64"
  shows "sorted_wrt earlier (halfSolutions N @ middleSolutions N)"
proof -
  define h where "h = nat (N div 2)"
  show ?thesis
  proof (cases "N mod 2 = 1")
    case True
    have "halfSolutions N @ middleSolutions N = concat (map (firstRowSolutions N) [0..<Suc h])"
      using True by (simp add: halfSolutions_def middleSolutions_def h_def)
    moreover have "\<forall>col\<in>set [0..<Suc h]. int col < N"
      using N True by (auto simp add: h_def) presburger
    ultimately show ?thesis using firstRowSolutions_ordered [OF N, of "[0..<Suc h]"]
      by (simp del: upt_Suc)
  next
    case False
    have "halfSolutions N @ middleSolutions N = concat (map (firstRowSolutions N) [0..<h])"
      using False by (simp add: halfSolutions_def middleSolutions_def h_def)
    moreover have "\<forall>col\<in>set [0..<h]. int col < N"
      using N by (auto simp add: h_def)
    ultimately show ?thesis using firstRowSolutions_ordered [OF N, of "[0..<h]"]
      by simp
  qed
qed

section \<open>Board sizes 5 and 8, and the trace of board size 1\<close>

lemma withMirrors_nth:
  "i < length R \<Longrightarrow>
     (withMirrors N R @ B) ! (2 * i) = R ! i
     \<and> (withMirrors N R @ B) ! (2 * i + 1) = map (\<lambda>x. (N + 1) - x) (R ! i)"
proof (induction R arbitrary: i)
  case Nil
  then show ?case by simp
next
  case (Cons S R)
  show ?case
  proof (cases i)
    case 0
    then show ?thesis by simp
  next
    case (Suc m)
    then have "m < length R" using Cons.prems by simp
    from Cons.IH [OF this] Suc show ?thesis by simp
  qed
qed

lemma first8_0: "length (firstRowSolutions 8 0) = 4"
proof -
  have "firstRowSolutions 8 0 = solutions 8 255 1 2 0 [1]"
    by (simp add: firstRowSolutions_def)
  then show ?thesis by (simp add: eval_simps)
qed

lemma first8_1: "length (firstRowSolutions 8 (Suc 0)) = 8"
proof -
  have "firstRowSolutions 8 (Suc 0) = solutions 8 255 2 4 1 [2]"
    by (simp add: firstRowSolutions_def)
  then show ?thesis by (simp add: eval_simps)
qed

lemma first8_2: "length (firstRowSolutions 8 2) = 16"
proof -
  have "firstRowSolutions 8 2 = solutions 8 255 4 8 2 [3]"
    by (simp add: firstRowSolutions_def)
  then show ?thesis by (simp add: eval_simps)
qed

lemma first8_3: "length (firstRowSolutions 8 3) = 18"
proof -
  have "firstRowSolutions 8 3 = solutions 8 255 8 16 4 [4]"
    by (simp add: firstRowSolutions_def)
  then show ?thesis by (simp add: eval_simps)
qed

lemmas first8 = first8_0 first8_1 first8_2 first8_3

lemma half8: "length (halfSolutions 8) = 46"
proof -
  have u: "[0..<nat (8 div 2)] = [0, Suc 0, 2, 3]"
    by (simp add: upt_conv_Cons eval_nat_numeral)
  show ?thesis unfolding halfSolutions_def u by (simp add: first8)
qed

lemma main_state:
  "snd (main v tmp (Size N)) =
     (if \<not> unsolvable v N \<and> 0 \<le> N \<and> N < 64 \<and> tmp
      then solveWithSymmetry v N (2 ^ nat N - 1) initial else initial)"
  "snd (main v tmp NoArgument) = initial"
  "snd (main v tmp Unreadable) = initial"
  by (auto simp add: main_def Let_def)

lemma main_consistent: "consistent (snd (main v tmp inp))"
proof -
  have "consistent (solveWithSymmetry v N (2 ^ nat N - 1) initial)"
    if "0 \<le> N" "N < 64" for N
    using solveWithSymmetry_plain(1) [OF that] solveWithSymmetry_mirrored(1) [OF that]
    by (cases "plainOnly v N") (simp_all add: sound_def)
  moreover have "consistent initial" using initial_sound by (simp add: sound_def)
  ultimately show ?thesis by (cases inp) (simp_all add: main_state)
qed

lemmas exec_simps = solve.simps solve_while.simps symmetricSolve.simps
  symmetricSolve_while.simps Let_def ctz_numerals main_def solveWithSymmetry_def firstRow_def
  unsolvable_def plainOnly_def cdiv_def cmod_def initial_def step_defs upt_conv_Cons

lemma observed_1: "observed (snd (main Solver_cpp True (Size 1))) = [(1, [1])]"
  by (simp add: exec_simps)

lemma half5: "halfSolutions 5 = [[1, 3, 5, 2, 4], [1, 4, 2, 5, 3], [2, 4, 1, 3, 5], [2, 5, 3, 1, 4]]"
proof -
  have u: "[0..<nat (5 div 2)] = [0, Suc 0]" by (simp add: upt_conv_Cons)
  have "firstRowSolutions 5 0 = solutions 5 31 1 2 0 [1]"
    "firstRowSolutions 5 (Suc 0) = solutions 5 31 2 4 1 [2]"
    by (simp_all add: firstRowSolutions_def)
  then show ?thesis unfolding halfSolutions_def u by (simp add: eval_simps)
qed

lemma middle5: "middleSolutions 5 = [[3, 1, 4, 2, 5], [3, 5, 2, 4, 1]]"
proof -
  have "firstRowSolutions 5 2 = solutions 5 31 4 8 2 [3]"
    by (simp add: firstRowSolutions_def)
  then show ?thesis by (simp add: middleSolutions_def eval_simps)
qed

lemma run5:
  "fst (main v True (Size 5)) =
     Summary 5 10 [[1, 3, 5, 2, 4], [5, 3, 1, 4, 2], [1, 4, 2, 5, 3], [5, 2, 4, 1, 3],
       [2, 4, 1, 3, 5], [4, 2, 5, 3, 1], [2, 5, 3, 1, 4], [4, 1, 3, 5, 2],
       [3, 1, 4, 2, 5], [3, 5, 2, 4, 1]]"
proof -
  have u: "\<not> unsolvable v 5" "\<not> plainOnly v 5"
    by (simp_all add: unsolvable_def plainOnly_def FIND_ALL_LIMIT_def)
  have "sink (solveWithSymmetry v 5 (2 ^ nat 5 - 1) initial) =
      [[1, 3, 5, 2, 4], [5, 3, 1, 4, 2], [1, 4, 2, 5, 3], [5, 2, 4, 1, 3],
       [2, 4, 1, 3, 5], [4, 2, 5, 3, 1], [2, 5, 3, 1, 4], [4, 1, 3, 5, 2],
       [3, 1, 4, 2, 5], [3, 5, 2, 4, 1]]"
    using solveWithSymmetry_mirrored(2) [of 5 v] u(2)
    by (simp add: half5 middle5)
  then show ?thesis using main_runs [OF u(1), simplified] by simp
qed

section \<open>More than a thousand solutions on the board of size 21\<close>



















section \<open>The claims\<close>

text \<open>
  Claim C1.  Whatever records a run of any variant reports in its summary, each is a
  sequence of exactly \<open>N\<close> columns in \<open>1 .. N\<close>, pairwise distinct, with no two queens on a
  common diagonal.
\<close>

theorem emitted_solutions_valid:
  assumes "fst (main v tmp (Size N)) = Summary M n rs"
  shows "\<forall>S\<in>set rs.
     int (length S) = N \<and> (\<forall>x\<in>set S. 1 \<le> x \<and> x \<le> N)
     \<and> (\<forall>i<length S. \<forall>j<length S. i \<noteq> j \<longrightarrow>
           S ! i \<noteq> S ! j \<and> \<bar>S ! i - S ! j\<bar> \<noteq> \<bar>int i - int j\<bar>)"
proof -
  from main_summary [OF assms] have N: "0 \<le> N" "N < 64"
    and rs: "rs = sink (solveWithSymmetry v N (2 ^ nat N - 1) initial)" by simp_all
  show ?thesis unfolding rs using solveWithSymmetry_valid [OF N, of v]
    by (simp add: valid_def nonattacking_def)
qed

theorem emitted_solutions_valid_witness:
  "fst (main Solver_cpp True (Size 4)) = Summary 4 2 [[2, 4, 1, 3], [3, 1, 4, 2]]
   \<and> valid 4 [2, 4, 1, 3] \<and> valid 4 [3, 1, 4, 2]"
  using emitted_solutions_valid [OF run4 [of Solver_cpp]] run4 [of Solver_cpp]
  by (simp add: valid_def nonattacking_def)

text \<open>
  Claim C2.  On the symmetry path the records are those of the first half of the
  first-row columns, each followed at once by its mirror image, and then those of the
  middle column: the record at position \<open>2 i\<close> is the \<open>i\<close>-th solution found with the first
  queen in a column up to \<open>N div 2\<close>, the record at position \<open>2 i + 1\<close> replaces every
  column \<open>x\<close> of it by \<open>N + 1 - x\<close>, and both are non-attacking full placements.
\<close>

theorem mirror_follows_solution:
  assumes "fst (main v tmp (Size N)) = Summary M n rs" and "\<not> plainOnly v N"
  shows "rs = withMirrors N (halfSolutions N) @ middleSolutions N
     \<and> (\<forall>i<length (halfSolutions N).
          rs ! (2 * i) = halfSolutions N ! i
          \<and> rs ! (2 * i + 1) = map (\<lambda>x. (N + 1) - x) (halfSolutions N ! i)
          \<and> hd (rs ! (2 * i)) \<le> N div 2
          \<and> valid N (rs ! (2 * i)) \<and> valid N (rs ! (2 * i + 1)))"
proof -
  from main_summary [OF assms(1)] have N: "0 \<le> N" "N < 64"
    and rs: "rs = sink (solveWithSymmetry v N (2 ^ nat N - 1) initial)" by simp_all
  have e: "rs = withMirrors N (halfSolutions N) @ middleSolutions N"
    unfolding rs by (rule solveWithSymmetry_mirrored(2) [OF N assms(2)])
  have "rs ! (2 * i) = halfSolutions N ! i
          \<and> rs ! (2 * i + 1) = map (\<lambda>x. (N + 1) - x) (halfSolutions N ! i)
          \<and> hd (rs ! (2 * i)) \<le> N div 2
          \<and> valid N (rs ! (2 * i)) \<and> valid N (rs ! (2 * i + 1))"
    if i: "i < length (halfSolutions N)" for i
  proof -
    note n = withMirrors_nth [OF i, of N "middleSolutions N", folded e]
    have "halfSolutions N ! i \<in> set (halfSolutions N)" using i by simp
    with halfSolutions_valid [OF N] have "valid N (halfSolutions N ! i)"
      "hd (halfSolutions N ! i) \<le> N div 2" by blast+
    then show ?thesis using n by (simp add: valid_mirror)
  qed
  with e show ?thesis by blast
qed

theorem mirror_follows_solution_witness:
  "fst (main Solver_cpp True (Size 4)) = Summary 4 2 [[2, 4, 1, 3], [3, 1, 4, 2]]
   \<and> halfSolutions 4 = [[2, 4, 1, 3]]
   \<and> [[2, 4, 1, 3], [3, 1, 4, 2]] ! 1 = map (\<lambda>x. (4 + 1) - x) [2, 4, 1, 3 :: int]
   \<and> valid 4 ([[2, 4, 1, 3], [3, 1, 4, 2]] ! 1)"
proof -
  have p: "\<not> plainOnly Solver_cpp 4" by (simp add: plainOnly_def FIND_ALL_LIMIT_def)
  from mirror_follows_solution [OF run4 [of Solver_cpp] p] run4 [of Solver_cpp]
  show ?thesis by (simp add: half4)
qed

text \<open>
  Claim C3.  For board size 8 every variant reports exactly 92 solutions: the count in
  the summary is 92, and 92 records are written.
\<close>

theorem board_8:
  "fst (main v True (Size 8)) = Summary 8 92 (sink (snd (main v True (Size 8))))
   \<and> solutionCount (snd (main v True (Size 8))) = 92
   \<and> length (sink (snd (main v True (Size 8)))) = 92"
proof -
  have u: "\<not> unsolvable v 8" "\<not> plainOnly v 8"
    by (simp_all add: unsolvable_def plainOnly_def FIND_ALL_LIMIT_def)
  note m = main_runs [OF u(1)]
  have l: "length (sink (solveWithSymmetry v 8 (2 ^ nat 8 - 1) initial)) = 92"
    using solveWithSymmetry_mirrored(2) [of 8 v] u(2)
    by (simp add: length_withMirrors half8 middleSolutions_def)
  have "sound (solveWithSymmetry v 8 (2 ^ nat 8 - 1) initial)"
    using solveWithSymmetry_mirrored(1) [of 8 v] u(2) by simp
  then have c: "solutionCount (solveWithSymmetry v 8 (2 ^ nat 8 - 1) initial) = 92"
    using l by (simp add: sound_def balance_def)
  show ?thesis using m l c by simp
qed

text \<open>
  Claim C4.  For board size 4 every variant reports exactly 2 solutions; the records are
  \<open>2 4 1 3\<close> and \<open>3 1 4 2\<close>, each a non-attacking full placement.
\<close>

theorem board_4:
  "fst (main v True (Size 4)) = Summary 4 2 [[2, 4, 1, 3], [3, 1, 4, 2]]
   \<and> solutionCount (snd (main v True (Size 4))) = 2
   \<and> sink (snd (main v True (Size 4))) = [[2, 4, 1, 3], [3, 1, 4, 2]]
   \<and> valid 4 [2, 4, 1, 3] \<and> valid 4 [3, 1, 4, 2]"
proof -
  have u: "\<not> unsolvable v 4" by (simp add: unsolvable_def)
  note r = run4 [of v]
  from main_runs [OF u] r
  have s: "sink (snd (main v True (Size 4))) = [[2, 4, 1, 3], [3, 1, 4, 2]]" by simp
  from main_runs [OF u] have "sound (snd (main v True (Size 4)))"
    using solveWithSymmetry_mirrored(1) [of 4 v]
    by (simp add: plainOnly_def FIND_ALL_LIMIT_def)
  then have c: "solutionCount (snd (main v True (Size 4))) = 2"
    using s by (simp add: sound_def balance_def)
  have "\<forall>S\<in>set (sink (solveWithSymmetry v 4 (2 ^ nat 4 - 1) initial)). valid 4 S"
    by (rule solveWithSymmetry_valid) simp_all
  then have "valid 4 [2, 4, 1, 3] \<and> valid 4 [3, 1, 4, 2]"
    using s main_runs [OF u] by simp
  with r s c show ?thesis by simp
qed

theorem board_4_witness:
  "fst (main Part_001 True (Size 4)) = Summary 4 2 [[2, 4, 1, 3], [3, 1, 4, 2]]
   \<and> valid 4 [2, 4, 1, 3]"
  using board_4 [of Part_001] by simp




text \<open>
  Claim C6, as stated, fails: in \<open>solver.cpp\<close> board size 0 gives the same outcome as
  board size 2, with exit status 0, not a distinct failure.
\<close>

theorem nonpositive_size_counterexample:
  "fst (main Solver_cpp True (Size 0)) = fst (main Solver_cpp True (Size 2))
   \<and> exitStatus (fst (main Solver_cpp True (Size 0))) = Some 0"
  by (simp add: main_def unsolvable_def)

text \<open>
  Claim C6, amended.  Unparseable input is reported as a failure of its own (exit status
  1) and the recursive search is never entered.  A board size \<open>N \<le> 0\<close> is caught before
  the search by \<open>solver.cpp\<close> and \<open>part_001\<close> (the test \<open>N < 4 && N != 1\<close>), the recursive
  search is never entered, and the report is \<open>No Solution\<close> with exit status 0.
\<close>

theorem nonpositive_size_reported_as_no_solution:
  "main v tmp Unreadable = (InvalidInput, initial)
   \<and> exitStatus (fst (main v tmp Unreadable)) = Some 1
   \<and> observed (snd (main v tmp Unreadable)) = []
   \<and> (N \<le> 0 \<and> v \<noteq> Part_000 \<longrightarrow>
        main v tmp (Size N) = (NoSolution, initial)
        \<and> exitStatus (fst (main v tmp (Size N))) = Some 0
        \<and> observed (snd (main v tmp (Size N))) = [])"
  by (auto simp add: main_def unsolvable_def initial_def)

theorem nonpositive_size_reported_as_no_solution_witness:
  "main Solver_cpp True (Size (- 5)) = (NoSolution, initial)
   \<and> exitStatus (fst (main Solver_cpp True (Size (- 5)))) = Some 0
   \<and> observed (snd (main Solver_cpp True (Size (- 5)))) = []"
  using nonpositive_size_reported_as_no_solution [of Solver_cpp True "- 5"]
  by (simp add: initial_def)

text \<open>
  Claim C7.  For board sizes 2 and 3 every variant of \<open>main\<close> writes \<open>No Solution\<close> and
  exits with status 0, which differs from the status of an input failure; the state at
  exit is the initial one: no solution counted, no record written, and nothing of
  the recursive search logged.
\<close>

theorem no_solution_for_2_and_3:
  "N = 2 \<or> N = 3 \<Longrightarrow>
     main v tmp (Size N) = (NoSolution, initial)
     \<and> exitStatus (fst (main v tmp (Size N))) = Some 0
     \<and> exitStatus (fst (main v tmp (Size N))) \<noteq> exitStatus (fst (main v tmp Unreadable))
     \<and> solutionCount (snd (main v tmp (Size N))) = 0
     \<and> sink (snd (main v tmp (Size N))) = []
     \<and> observed (snd (main v tmp (Size N))) = []"
  by (auto simp add: main_def unsolvable_def initial_def)

theorem no_solution_for_2_and_3_witness:
  "main Part_000 True (Size 2) = (NoSolution, initial)
     \<and> exitStatus (fst (main Part_000 True (Size 2))) = Some 0
     \<and> observed (snd (main Part_000 True (Size 2))) = []"
  using no_solution_for_2_and_3 [of 2 Part_000 True] by (simp add: initial_def)

text \<open>
  Claim C8.  The summary of a run is determined by the variant and the board size: any
  two runs that report a summary report the same count and the same records in the same
  order.  In each turn of its loop the search takes the lowest candidate column, so the
  records that the search finds itself (all of them on the plain path; on the symmetry
  path those not written as mirror images) come in increasing order: where two of them
  first differ, the earlier one has the smaller column.
\<close>

theorem discovery_order_deterministic:
  assumes "fst (main v tmp (Size N)) = Summary M n rs"
  shows "(\<forall>tmp' M' n' rs'. fst (main v tmp' (Size N)) = Summary M' n' rs' \<longrightarrow>
            M' = M \<and> n' = n \<and> rs' = rs)
     \<and> (\<forall>q j. q \<noteq> 0 \<longrightarrow> (bit (q AND - q) j \<longleftrightarrow> j = ctz q) \<and> (bit q j \<longrightarrow> ctz q \<le> j))
     \<and> (plainOnly v N \<longrightarrow> sorted_wrt earlier rs)
     \<and> (\<not> plainOnly v N \<longrightarrow>
          rs = withMirrors N (halfSolutions N) @ middleSolutions N
          \<and> sorted_wrt earlier (halfSolutions N @ middleSolutions N))"
proof -
  from main_summary [OF assms] have N: "0 \<le> N" "N < 64"
    and rs: "rs = sink (solveWithSymmetry v N (2 ^ nat N - 1) initial)"
    and n: "M = N" "n = int (length rs)" by simp_all
  have a: "M' = M \<and> n' = n \<and> rs' = rs"
    if "fst (main v tmp' (Size N)) = Summary M' n' rs'" for tmp' M' n' rs'
    using main_summary [OF that] rs n by simp
  have b: "(bit (q AND - q) j \<longleftrightarrow> j = ctz q) \<and> (bit q j \<longrightarrow> ctz q \<le> j)"
    if "q \<noteq> 0" for q j
    using bit_lowbit [OF that] ctz_le by blast
  have c: "sorted_wrt earlier rs" if pl: "plainOnly v N"
  proof -
    from solveWithSymmetry_plain(2) [OF N pl] obtain k where
      "rs = take k (solutions N (2 ^ nat N - 1) 0 0 0 [])" unfolding rs by blast
    then show ?thesis
      using solutions_ordered(1) [OF placed_root [OF N] refl] by (simp add: sorted_wrt_take)
  qed
  have d: "rs = withMirrors N (halfSolutions N) @ middleSolutions N" if "\<not> plainOnly v N"
    unfolding rs by (rule solveWithSymmetry_mirrored(2) [OF N that])
  show ?thesis using a b c d search_order [OF N] by blast
qed

theorem discovery_order_deterministic_witness:
  "fst (main Solver_cpp True (Size 5)) =
     Summary 5 10 [[1, 3, 5, 2, 4], [5, 3, 1, 4, 2], [1, 4, 2, 5, 3], [5, 2, 4, 1, 3],
       [2, 4, 1, 3, 5], [4, 2, 5, 3, 1], [2, 5, 3, 1, 4], [4, 1, 3, 5, 2],
       [3, 1, 4, 2, 5], [3, 5, 2, 4, 1]]
   \<and> sorted_wrt earlier [[1, 3, 5, 2, 4], [1, 4, 2, 5, 3], [2, 4, 1, 3, 5], [2, 5, 3, 1, 4],
       [3, 1, 4, 2, 5], [3, 5, 2, 4, 1]]"
proof -
  have p: "\<not> plainOnly Solver_cpp 5" by (simp add: plainOnly_def FIND_ALL_LIMIT_def)
  from discovery_order_deterministic [OF run5 [of Solver_cpp]] p
  have "sorted_wrt earlier (halfSolutions 5 @ middleSolutions 5)" by blast
  then show ?thesis using run5 [of Solver_cpp] by (simp only: half5 middle5 append.simps)
qed

text \<open>
  Claim C9.  In every state logged during a run, at the entry of a call of the recursive
  search and after each pop that follows a push, the placement has as many entries as the
  occupied-columns mask has set bits; and a call of the search returns with the placement
  it was entered with.
\<close>

theorem placement_matches_columns:
  "(\<forall>e\<in>set (observed (snd (main v tmp inp))). length (snd e) = popcount (fst e))
   \<and> path (solve v N LIMIT c l r s) = path s
   \<and> path (symmetricSolve N LIMIT c l r s) = path s"
  using main_consistent [of v tmp inp]
  by (simp add: consistent_def solve_path symmetricSolve_path)

theorem placement_matches_columns_witness:
  "observed (snd (main Solver_cpp True (Size 1))) = [(1, [1])]
   \<and> length [1 :: int] = popcount 1"
  using placement_matches_columns [of Solver_cpp True "Size 1"]
  by (simp add: observed_1)

text \<open>
  Claim C10, as stated, fails: \<open>part_000\<close>, the variant whose check tests only 2 and 3,
  outputs the count 0 for board size 0, with no record.
\<close>

theorem empty_board_counterexample:
  "fst (main Part_000 True (Size 0)) = Summary 0 0 []"
  by (simp add: main_def unsolvable_def solveWithSymmetry_def plainOnly_def cdiv_def cmod_def
      initial_def FIND_ALL_LIMIT_def)

text \<open>
  Claim C10, amended.  The plain search called for board size 0 with empty masks reports
  one solution with an empty placement at once, since the occupied-columns mask 0 equals
  the full mask \<open>(1 << 0) - 1 = 0\<close>.  In \<open>part_000\<close> board size 0 does not reach it:
  \<open>solveWithSymmetry\<close> takes the symmetry path (0 is below 21), whose loop over \<open>0 / 2\<close>
  columns and whose odd-size branch do nothing, and the program outputs the count 0.
\<close>

theorem empty_board_part_000:
  "solutionCount (solve Part_000 0 0 0 0 0 initial) = 1
   \<and> sink (solve Part_000 0 0 0 0 0 initial) = [[]]
   \<and> plainOnly Part_000 0 = False
   \<and> main Part_000 True (Size 0) = (Summary 0 0 [], initial)"
  by (simp add: main_def unsolvable_def solveWithSymmetry_def plainOnly_def cdiv_def cmod_def
      initial_def step_defs solve.simps)

end
